theory Spec2Isabelle
  imports Main "HOL-Library.Word"
begin

unbundle bit_operations_syntax

section \<open>Machine types\<close>

text \<open>
  Bytes and the fixed-width fields of the C structs are words. Indices and counts of type
  \<open>size_t\<close> are words where the code works on their bits (the power-of-two test) and
  natural numbers where the code only counts below a capacity (ring indices, the
  subscriber count, byte counts): there every value stays below a bound that is itself a
  \<open>size_t\<close>, so no operation wraps around. An index beyond its array and a remainder
  by a capacity of 0 are undefined in C; the invariants \<open>bus_inv\<close> and \<open>rb_wf\<close> below
  describe the states in which neither happens, and the statements about the queues are
  made for these states.

  Functions keep their C names. Struct fields carry a prefix (\<open>p2_\<close>, \<open>ev_\<close>,
  \<open>sub_\<close>, \<open>bus_\<close>, \<open>rb_\<close>, \<open>entry_\<close>), since several structs have a \<open>head\<close>, a
  \<open>tail\<close> and a \<open>capacity\<close>. A function that writes through a pointer returns the
  object after the call.
\<close>

type_synonym u8 = "8 word"
type_synonym u16 = "16 word"
type_synonym u32 = "32 word"

section \<open>Power-of-two ring buffer (ring\_buffer\_pow2.h, ring\_buffer\_pow2.c)\<close>

text \<open>
  \<^verbatim>\<open>static inline bool osusat_is_pow2(size_t x) { return x && !(x & (x - 1)); }\<close>
  The width of \<open>size_t\<close> is a parameter (32 on the Cortex-M targets, 64 on a host).
\<close>

definition osusat_is_pow2 :: "'a::len word \<Rightarrow> bool" where
  "osusat_is_pow2 x = (x \<noteq> 0 \<and> \<not> (x AND (x - 1) \<noteq> 0))"

text \<open>The struct, with the type of \<open>size_t\<close> as its parameter.\<close>

record 'size_t ring_buffer_pow2 =
  p2_buffer :: "u8 list"
  p2_capacity :: "'size_t"
  p2_mask :: "'size_t"
  p2_head :: "'size_t"
  p2_tail :: "'size_t"

text \<open>
  \<open>osusat_ring_buffer_pow2_init\<close> writes through the handle \<open>rb\<close> and returns a
  flag: the model returns the flag and the handle after the call. On the early
  \<open>return false\<close> no field has been assigned.
\<close>

definition osusat_ring_buffer_pow2_init ::
  "'a::len word ring_buffer_pow2 \<Rightarrow> u8 list \<Rightarrow> 'a word \<Rightarrow> bool \<times> 'a word ring_buffer_pow2" where
  "osusat_ring_buffer_pow2_init rb storage capacity =
     (if \<not> osusat_is_pow2 capacity then (False, rb)
      else (True, rb\<lparr>p2_buffer := storage, p2_capacity := capacity,
                      p2_mask := capacity - 1, p2_head := 0, p2_tail := 0\<rparr>))"

definition osusat_ring_buffer_pow2_empty :: "'a::len word ring_buffer_pow2 \<Rightarrow> bool" where
  "osusat_ring_buffer_pow2_empty rb = (p2_head rb = p2_tail rb)"

section \<open>Event bus (event\_bus.h, osusat\_event\_bus.c)\<close>

text \<open>
  \<^verbatim>\<open>OSUSAT_EVENT_MAX_PAYLOAD\<close> and \<^verbatim>\<open>OSUSAT_EVENT_MAX_SUBSCRIBERS\<close>.
\<close>

definition OSUSAT_EVENT_MAX_PAYLOAD :: nat where
  "OSUSAT_EVENT_MAX_PAYLOAD = 32"

definition OSUSAT_EVENT_MAX_SUBSCRIBERS :: nat where
  "OSUSAT_EVENT_MAX_SUBSCRIBERS = 128"

text \<open>\<open>osusat_event_t\<close>: the payload is an array of 32 bytes.\<close>

record event =
  ev_id :: u32
  ev_payload :: "u8 list"
  ev_payload_len :: u8

text \<open>
  \<open>subscriber_entry_t\<close>. A handler is a function pointer and a context is a
  \<open>void *\<close>: both are opaque values, \<open>None\<close> being the null pointer.
\<close>

record ('h, 'c) subscriber_entry =
  sub_id :: u32
  sub_handler :: "'h option"
  sub_ctx :: "'c option"

text \<open>
  The static \<open>bus\<close>. \<open>bus_subs\<close> is the array of 128 entries; \<open>bus_queue\<close> is the
  pointer to the caller's array of events, modelled as the array itself (\<open>None\<close> is the
  null pointer).
\<close>

record ('h, 'c) event_bus =
  bus_subs :: "('h, 'c) subscriber_entry list"
  bus_sub_count :: nat
  bus_queue :: "event list option"
  bus_capacity :: nat
  bus_head :: nat
  bus_tail :: nat

text \<open>
  \<open>memcpy(dst, src, n)\<close> and \<open>memset(dst, c, n)\<close> on byte arrays. Both are defined
  in C when the arrays have \<open>n\<close> bytes; what is stated below about copied bytes assumes
  that they do.
\<close>

definition memcpy :: "u8 list \<Rightarrow> u8 list \<Rightarrow> nat \<Rightarrow> u8 list" where
  "memcpy dst src n = take n src @ drop n dst"

definition memset :: "u8 list \<Rightarrow> u8 \<Rightarrow> nat \<Rightarrow> u8 list" where
  "memset dst c n = replicate n c @ drop n dst"

text \<open>The bus after \<open>memset(&bus, 0, sizeof(bus))\<close>.\<close>

definition bus_zero :: "('h, 'c) event_bus" where
  "bus_zero =
     \<lparr>bus_subs = replicate OSUSAT_EVENT_MAX_SUBSCRIBERS
                   \<lparr>sub_id = 0, sub_handler = None, sub_ctx = None\<rparr>,
      bus_sub_count = 0, bus_queue = None, bus_capacity = 0, bus_head = 0, bus_tail = 0\<rparr>"

definition osusat_event_bus_init :: "event list option \<Rightarrow> nat \<Rightarrow> ('h, 'c) event_bus" where
  "osusat_event_bus_init queue_storage queue_capacity =
     (if queue_storage \<noteq> None \<and> queue_capacity > 0
      then bus_zero\<lparr>bus_queue := queue_storage, bus_capacity := queue_capacity\<rparr>
      else bus_zero)"

definition osusat_event_bus_subscribe ::
  "('h, 'c) event_bus \<Rightarrow> u32 \<Rightarrow> 'h option \<Rightarrow> 'c option \<Rightarrow> bool \<times> ('h, 'c) event_bus" where
  "osusat_event_bus_subscribe bus event_id handler ctx =
     (if bus_sub_count bus \<ge> OSUSAT_EVENT_MAX_SUBSCRIBERS then (False, bus)
      else if handler = None then (False, bus)
      else (True,
            bus\<lparr>bus_subs := (bus_subs bus)[bus_sub_count bus :=
                                \<lparr>sub_id = event_id, sub_handler = handler, sub_ctx = ctx\<rparr>],
                bus_sub_count := bus_sub_count bus + 1\<rparr>))"

text \<open>
  \<open>osusat_event_bus_publish(event_id, payload, len)\<close>. The payload pointer is the
  caller's byte array or null. The slot at \<open>head\<close> is updated field by field, so the
  payload bytes that \<open>memcpy\<close> does not reach keep what the slot held.
\<close>

definition osusat_event_bus_publish ::
  "('h, 'c) event_bus \<Rightarrow> u32 \<Rightarrow> u8 list option \<Rightarrow> nat \<Rightarrow> bool \<times> ('h, 'c) event_bus" where
  "osusat_event_bus_publish bus event_id payload len0 =
     (case bus_queue bus of
        None \<Rightarrow> (False, bus)
      | Some q \<Rightarrow>
          let len = (if len0 > OSUSAT_EVENT_MAX_PAYLOAD then OSUSAT_EVENT_MAX_PAYLOAD else len0);
              next_head = (bus_head bus + 1) mod bus_capacity bus
          in if next_head \<noteq> bus_tail bus then
               let slot = q ! bus_head bus;
                   slot = slot\<lparr>ev_id := event_id, ev_payload_len := of_nat len\<rparr>;
                   slot = (case payload of
                             Some p \<Rightarrow>
                               if len > 0 then slot\<lparr>ev_payload := memcpy (ev_payload slot) p len\<rparr>
                               else slot\<lparr>ev_payload :=
                                      memset (ev_payload slot) 0 OSUSAT_EVENT_MAX_PAYLOAD\<rparr>
                           | None \<Rightarrow> slot\<lparr>ev_payload :=
                                      memset (ev_payload slot) 0 OSUSAT_EVENT_MAX_PAYLOAD\<rparr>)
               in (True, bus\<lparr>bus_queue := Some (q[bus_head bus := slot]), bus_head := next_head\<rparr>)
             else (False, bus))"

text \<open>
  A handler is opaque to the bus: the model records every invocation
  \<open>handler(event, ctx)\<close>, in order. A handler that itself calls into the bus is outside the
  model.
\<close>

type_synonym ('h, 'c) handler_call = "'h option \<times> event \<times> 'c option"

text \<open>The inner loop of \<open>process\<close>: \<open>for (size_t i = 0; i < bus.sub_count; i++)\<close>.\<close>

function bus_dispatch ::
  "('h, 'c) subscriber_entry list \<Rightarrow> nat \<Rightarrow> event \<Rightarrow> nat \<Rightarrow> ('h, 'c) handler_call list
     \<Rightarrow> ('h, 'c) handler_call list" where
  "bus_dispatch subs sub_count current_event i calls =
     (if i < sub_count then
        bus_dispatch subs sub_count current_event (i + 1)
          (if sub_id (subs ! i) = ev_id current_event
           then calls @ [(sub_handler (subs ! i), current_event, sub_ctx (subs ! i))]
           else calls)
      else calls)"
  by pat_completeness auto
termination
  by (relation "measure (\<lambda>(subs, sub_count, current_event, i, calls). sub_count - i)") auto

declare bus_dispatch.simps [simp del]

text \<open>
  The outer loop, \<open>while (bus.tail != bus.head)\<close>. Whether it ends depends on the
  indices, so not returning is the value \<open>None\<close>.
\<close>

partial_function (option) bus_process_loop ::
  "('h, 'c) event_bus \<Rightarrow> event list \<Rightarrow> ('h, 'c) handler_call list
     \<Rightarrow> (('h, 'c) event_bus \<times> ('h, 'c) handler_call list) option" where
  "bus_process_loop bus q calls =
     (if bus_tail bus \<noteq> bus_head bus then
        bus_process_loop (bus\<lparr>bus_tail := (bus_tail bus + 1) mod bus_capacity bus\<rparr>) q
          (bus_dispatch (bus_subs bus) (bus_sub_count bus) (q ! bus_tail bus) 0 calls)
      else Some (bus, calls))"

definition osusat_event_bus_process ::
  "('h, 'c) event_bus \<Rightarrow> (('h, 'c) event_bus \<times> ('h, 'c) handler_call list) option" where
  "osusat_event_bus_process bus =
     (case bus_queue bus of
        None \<Rightarrow> Some (bus, [])
      | Some q \<Rightarrow> bus_process_loop bus q [])"

text \<open>
  What the bus satisfies between calls, once the caller has passed \<open>init\<close> an array
  of \<open>queue_capacity\<close> events: the table and the count fit the array of 128, every
  live subscription has a handler, and a bound queue has \<open>capacity\<close> slots with both
  indices inside it.
\<close>

definition bus_inv :: "('h, 'c) event_bus \<Rightarrow> bool" where
  "bus_inv bus =
     (length (bus_subs bus) = OSUSAT_EVENT_MAX_SUBSCRIBERS \<and>
      bus_sub_count bus \<le> OSUSAT_EVENT_MAX_SUBSCRIBERS \<and>
      list_all (\<lambda>s. sub_handler s \<noteq> None) (take (bus_sub_count bus) (bus_subs bus)) \<and>
      (case bus_queue bus of
         None \<Rightarrow> True
       | Some q \<Rightarrow>
           0 < bus_capacity bus \<and> length q = bus_capacity bus \<and>
           bus_head bus < bus_capacity bus \<and> bus_tail bus < bus_capacity bus))"

text \<open>
  The part of it that holds whatever array the caller passed: the indices of a bound
  queue are below a positive capacity.
\<close>

definition bus_indices_ok :: "('h, 'c) event_bus \<Rightarrow> bool" where
  "bus_indices_ok bus =
     (case bus_queue bus of
        None \<Rightarrow> True
      | Some q \<Rightarrow> 0 < bus_capacity bus \<and> bus_head bus < bus_capacity bus \<and>
                  bus_tail bus < bus_capacity bus)"

text \<open>The live part of the subscriber table, in registration order.\<close>

definition bus_table :: "('h, 'c) event_bus \<Rightarrow> ('h, 'c) subscriber_entry list" where
  "bus_table bus = take (bus_sub_count bus) (bus_subs bus)"

text \<open>The number of pending events and the pending events, oldest first.\<close>

definition bus_pending_count :: "('h, 'c) event_bus \<Rightarrow> nat" where
  "bus_pending_count bus =
     (if bus_head bus \<ge> bus_tail bus then bus_head bus - bus_tail bus
      else bus_capacity bus - (bus_tail bus - bus_head bus))"

definition bus_pending :: "('h, 'c) event_bus \<Rightarrow> event list" where
  "bus_pending bus =
     (case bus_queue bus of
        None \<Rightarrow> []
      | Some q \<Rightarrow> map (\<lambda>k. q ! ((bus_tail bus + k) mod bus_capacity bus))
                     [0..<bus_pending_count bus])"

text \<open>
  The calls the interface promises for one event: one per subscription with the event's
  id, in table order.
\<close>

definition matching_calls ::
  "('h, 'c) subscriber_entry list \<Rightarrow> event \<Rightarrow> ('h, 'c) handler_call list" where
  "matching_calls table e =
     map (\<lambda>s. (sub_handler s, e, sub_ctx s)) (filter (\<lambda>s. sub_id s = ev_id e) table)"

text \<open>
  Sequences of calls. \<open>bus_run\<close> applies any sequence of the four operations of the
  interface; \<open>publish_all\<close> publishes a list of requests and says whether every one of
  them was accepted.
\<close>

datatype ('h, 'c) bus_op =
  Op_init "event list option" nat
| Op_subscribe u32 "'h option" "'c option"
| Op_publish u32 "u8 list option" nat
| Op_process

fun bus_step :: "('h, 'c) event_bus \<Rightarrow> ('h, 'c) bus_op \<Rightarrow> ('h, 'c) event_bus option" where
  "bus_step bus (Op_init queue_storage queue_capacity) =
     Some (osusat_event_bus_init queue_storage queue_capacity)"
| "bus_step bus (Op_subscribe event_id handler ctx) =
     Some (snd (osusat_event_bus_subscribe bus event_id handler ctx))"
| "bus_step bus (Op_publish event_id payload len) =
     Some (snd (osusat_event_bus_publish bus event_id payload len))"
| "bus_step bus Op_process = map_option fst (osusat_event_bus_process bus)"

fun bus_run :: "('h, 'c) event_bus \<Rightarrow> ('h, 'c) bus_op list \<Rightarrow> ('h, 'c) event_bus option" where
  "bus_run bus [] = Some bus"
| "bus_run bus (x # xs) = (case bus_step bus x of None \<Rightarrow> None | Some bus' \<Rightarrow> bus_run bus' xs)"

type_synonym publish_request = "u32 \<times> u8 list option \<times> nat"

fun publish_all :: "('h, 'c) event_bus \<Rightarrow> publish_request list \<Rightarrow> bool \<times> ('h, 'c) event_bus" where
  "publish_all bus [] = (True, bus)"
| "publish_all bus ((event_id, payload, len) # rs) =
     (case osusat_event_bus_publish bus event_id payload len of
        (True, bus') \<Rightarrow> publish_all bus' rs
      | (False, bus') \<Rightarrow> (False, bus'))"

text \<open>
  What a queued event carries of its request: the id, the length cut at 32, and the
  first bytes of a non-null payload that has them.
\<close>

definition event_carries :: "publish_request \<Rightarrow> event \<Rightarrow> bool" where
  "event_carries r e =
     (case r of (event_id, payload, len) \<Rightarrow>
        ev_id e = event_id \<and> unat (ev_payload_len e) = min len 32 \<and>
        (case payload of
           None \<Rightarrow> True
         | Some p \<Rightarrow> 0 < len \<and> min len 32 \<le> length p
                      \<longrightarrow> take (min len 32) (ev_payload e) = take (min len 32) p))"

text \<open>
  The scenario of the specification: a queue of capacity 4 over an array whose slots hold
  earlier data, handler 1 subscribed to event A and handler 2 to event B.
\<close>

definition scenario_slot :: event where
  "scenario_slot = \<lparr>ev_id = 0xDEADBEEF, ev_payload = replicate 32 0xAA, ev_payload_len = 9\<rparr>"

definition scenario_bus :: "(nat, nat) event_bus" where
  "scenario_bus =
     snd (osusat_event_bus_subscribe
            (snd (osusat_event_bus_subscribe
                    (osusat_event_bus_init (Some (replicate 4 scenario_slot)) 4)
                    0xBA770001 (Some 1) None))
            0xBA770002 (Some 2) (Some 9))"

section \<open>Ring buffer (ring\_buffer.h, osusat\_ring\_buffer.c)\<close>

text \<open>
  \<open>osusat_ring_buffer_t\<close>. \<open>rb_buffer\<close> is the storage array the handle points to.
\<close>

record ring_buffer =
  rb_buffer :: "u8 list"
  rb_capacity :: nat
  rb_head :: nat
  rb_tail :: nat
  rb_overwrite :: bool

definition osusat_ring_buffer_init :: "u8 list \<Rightarrow> nat \<Rightarrow> bool \<Rightarrow> ring_buffer" where
  "osusat_ring_buffer_init storage capacity overwrite =
     \<lparr>rb_buffer = storage, rb_capacity = capacity, rb_head = 0, rb_tail = 0,
      rb_overwrite = overwrite\<rparr>"

definition osusat_ring_buffer_empty :: "ring_buffer \<Rightarrow> bool" where
  "osusat_ring_buffer_empty rb = (rb_head rb = rb_tail rb)"

definition osusat_ring_buffer_full :: "ring_buffer \<Rightarrow> bool" where
  "osusat_ring_buffer_full rb = ((rb_head rb + 1) mod rb_capacity rb = rb_tail rb)"

definition osusat_ring_buffer_size :: "ring_buffer \<Rightarrow> nat" where
  "osusat_ring_buffer_size rb =
     (if rb_head rb \<ge> rb_tail rb then rb_head rb - rb_tail rb
      else rb_capacity rb - (rb_tail rb - rb_head rb))"

definition osusat_ring_buffer_push :: "ring_buffer \<Rightarrow> u8 \<Rightarrow> bool \<times> ring_buffer" where
  "osusat_ring_buffer_push rb byte =
     (let next = (rb_head rb + 1) mod rb_capacity rb in
      if next = rb_tail rb then
        if \<not> rb_overwrite rb then (False, rb)
        else
          let rb = rb\<lparr>rb_tail := (rb_tail rb + 1) mod rb_capacity rb\<rparr>
          in (True, rb\<lparr>rb_buffer := (rb_buffer rb)[rb_head rb := byte], rb_head := next\<rparr>)
      else (True, rb\<lparr>rb_buffer := (rb_buffer rb)[rb_head rb := byte], rb_head := next\<rparr>))"

text \<open>
  \<open>pop\<close> returns false on an empty buffer and leaves \<open>*out\<close> alone; otherwise it writes
  the byte to \<open>*out\<close>. The model returns the byte and the buffer, or \<open>None\<close>.
\<close>

definition osusat_ring_buffer_pop :: "ring_buffer \<Rightarrow> (u8 \<times> ring_buffer) option" where
  "osusat_ring_buffer_pop rb =
     (if rb_tail rb = rb_head rb then None
      else Some (rb_buffer rb ! rb_tail rb,
                 rb\<lparr>rb_tail := (rb_tail rb + 1) mod rb_capacity rb\<rparr>))"

text \<open>
  A handle as \<open>init\<close> and the operations leave it, over an array of \<open>capacity\<close> bytes
  with \<open>capacity > 0\<close>; and the bytes it holds, oldest first.
\<close>

definition rb_wf :: "ring_buffer \<Rightarrow> bool" where
  "rb_wf rb =
     (0 < rb_capacity rb \<and> length (rb_buffer rb) = rb_capacity rb \<and>
      rb_head rb < rb_capacity rb \<and> rb_tail rb < rb_capacity rb)"

definition rb_contents :: "ring_buffer \<Rightarrow> u8 list" where
  "rb_contents rb =
     map (\<lambda>k. rb_buffer rb ! ((rb_tail rb + k) mod rb_capacity rb))
       [0..<osusat_ring_buffer_size rb]"

text \<open>The last \<open>n\<close> elements of a list: what an overwriting buffer keeps.\<close>

definition keep_last :: "nat \<Rightarrow> 'a list \<Rightarrow> 'a list" where
  "keep_last n xs = drop (length xs - n) xs"

section \<open>Structured logging (slog.h, slog.c)\<close>

definition MAX_LOG_MESSAGE_LEN :: nat where
  "MAX_LOG_MESSAGE_LEN = 128"

datatype osusat_slog_level_t =
  OSUSAT_SLOG_DEBUG | OSUSAT_SLOG_INFO | OSUSAT_SLOG_WARN | OSUSAT_SLOG_ERROR
| OSUSAT_SLOG_CRITICAL

text \<open>The values of the enumerators.\<close>

fun level_value :: "osusat_slog_level_t \<Rightarrow> nat" where
  "level_value OSUSAT_SLOG_DEBUG = 0"
| "level_value OSUSAT_SLOG_INFO = 1"
| "level_value OSUSAT_SLOG_WARN = 2"
| "level_value OSUSAT_SLOG_ERROR = 3"
| "level_value OSUSAT_SLOG_CRITICAL = 4"

text \<open>\<open>osusat_slog_entry_t\<close>, a packed struct of 10 bytes.\<close>

record osusat_slog_entry_t =
  entry_timestamp_ms :: u32
  entry_level :: u8
  entry_component_id :: u8
  entry_line :: u16
  entry_message_len :: u16

definition SIZEOF_ENTRY :: nat where
  "SIZEOF_ENTRY = 10"

text \<open>
  The bytes of an entry as \<open>(const uint8_t *)&entry\<close> reads them and as writing
  through \<open>(uint8_t *)&entry\<close> sets them: the fields in order, without padding, each
  little-endian (the byte order of the Cortex-M targets and of the hosts the tests run on).
\<close>

definition le16 :: "u16 \<Rightarrow> u8 list" where
  "le16 x = [ucast x, ucast (drop_bit 8 x)]"

definition le32 :: "u32 \<Rightarrow> u8 list" where
  "le32 x = [ucast x, ucast (drop_bit 8 x), ucast (drop_bit 16 x), ucast (drop_bit 24 x)]"

definition of_le16 :: "u8 \<Rightarrow> u8 \<Rightarrow> u16" where
  "of_le16 b0 b1 = ucast b0 OR push_bit 8 (ucast b1)"

definition of_le32 :: "u8 \<Rightarrow> u8 \<Rightarrow> u8 \<Rightarrow> u8 \<Rightarrow> u32" where
  "of_le32 b0 b1 b2 b3 =
     ucast b0 OR push_bit 8 (ucast b1) OR push_bit 16 (ucast b2) OR push_bit 24 (ucast b3)"

definition entry_bytes :: "osusat_slog_entry_t \<Rightarrow> u8 list" where
  "entry_bytes e =
     le32 (entry_timestamp_ms e) @ [entry_level e, entry_component_id e] @
     le16 (entry_line e) @ le16 (entry_message_len e)"

definition entry_of_bytes :: "u8 list \<Rightarrow> osusat_slog_entry_t" where
  "entry_of_bytes bs =
     \<lparr>entry_timestamp_ms = of_le32 (bs ! 0) (bs ! 1) (bs ! 2) (bs ! 3),
      entry_level = bs ! 4, entry_component_id = bs ! 5,
      entry_line = of_le16 (bs ! 6) (bs ! 7),
      entry_message_len = of_le16 (bs ! 8) (bs ! 9)\<rparr>"

text \<open>
  The globals \<open>g_log_buffer\<close>, \<open>g_timestamp_fn\<close> and \<open>g_min_level\<close>. The buffer pointer
  is modelled as the caller's handle itself. The timestamp function takes no argument
  and reads the platform (a tick counter): the platform's state is the parameter \<open>'w\<close>.
\<close>

record 'w slog_state =
  g_log_buffer :: "ring_buffer option"
  g_timestamp_fn :: "('w \<Rightarrow> u32) option"
  g_min_level :: osusat_slog_level_t

definition osusat_slog_init ::
  "ring_buffer option \<Rightarrow> ('w \<Rightarrow> u32) option \<Rightarrow> osusat_slog_level_t \<Rightarrow> 'w slog_state" where
  "osusat_slog_init log_buf timestamp_fn min_level =
     \<lparr>g_log_buffer = log_buf, g_timestamp_fn = timestamp_fn, g_min_level = min_level\<rparr>"

definition osusat_slog_change_min_log_level ::
  "'w slog_state \<Rightarrow> osusat_slog_level_t \<Rightarrow> 'w slog_state" where
  "osusat_slog_change_min_log_level st min_level = st\<lparr>g_min_level := min_level\<rparr>"

text \<open>
  \<open>vsnprintf(buf, size, fmt, args)\<close> of the C library. What the format and its arguments
  expand to is the parameter \<open>formatted\<close>: the whole output, or \<open>None\<close> when formatting
  fails. With \<open>size > 0\<close> the call stores the first \<open>size - 1\<close> bytes of the output and a
  terminating zero, leaves the rest of \<open>buf\<close> alone, and returns the length of the whole
  output; on failure it returns a negative value.
\<close>

definition vsnprintf :: "u8 list \<Rightarrow> nat \<Rightarrow> u8 list option \<Rightarrow> u8 list \<times> int" where
  "vsnprintf buf bufsz formatted =
     (case formatted of
        None \<Rightarrow> (buf, - 1)
      | Some out \<Rightarrow>
          if bufsz = 0 then (buf, int (length out))
          else (memcpy buf (take (bufsz - 1) out @ [0]) (min (length out) (bufsz - 1) + 1),
                int (length out)))"

text \<open>
  The two \<open>for\<close> loops of \<open>write\<close> push bytes in order and return from the function at
  the first push that fails: \<open>slog_push_bytes\<close> pushes a list of bytes that way.
\<close>

fun slog_push_bytes :: "ring_buffer \<Rightarrow> u8 list \<Rightarrow> bool \<times> ring_buffer" where
  "slog_push_bytes rb [] = (True, rb)"
| "slog_push_bytes rb (b # bs) =
     (case osusat_ring_buffer_push rb b of
        (False, rb') \<Rightarrow> (False, rb')
      | (True, rb') \<Rightarrow> slog_push_bytes rb' bs)"

text \<open>
  \<open>osusat_slog_write_internal(level, component_id, line, fmt, ...)\<close>. \<open>w\<close> is the
  platform state the timestamp function reads, \<open>junk\<close> what the local array
  \<open>message\<close> holds before \<open>vsnprintf\<close> writes to it. The first test of the source,
  \<open>level < g_min_level || g_log_buffer == NULL\<close>, is the \<open>None\<close> case and the
  comparison of the levels. The critical section is a no-op off target and the model is
  sequential.
\<close>

definition osusat_slog_write_internal ::
  "'w slog_state \<Rightarrow> 'w \<Rightarrow> u8 list \<Rightarrow> osusat_slog_level_t \<Rightarrow> u8 \<Rightarrow> u16 \<Rightarrow> u8 list option
     \<Rightarrow> 'w slog_state" where
  "osusat_slog_write_internal st w junk level component_id line formatted =
     (case g_log_buffer st of
        None \<Rightarrow> st
      | Some rb \<Rightarrow>
          if level_value level < level_value (g_min_level st) then st
          else
            let (message, len) = vsnprintf junk MAX_LOG_MESSAGE_LEN formatted in
            if len < 0 then st
            else
              let len = (if nat len \<ge> MAX_LOG_MESSAGE_LEN then MAX_LOG_MESSAGE_LEN - 1
                         else nat len);
                  entry = \<lparr>entry_timestamp_ms =
                             (case g_timestamp_fn st of Some f \<Rightarrow> f w | None \<Rightarrow> 0),
                           entry_level = of_nat (level_value level),
                           entry_component_id = component_id,
                           entry_line = line,
                           entry_message_len = of_nat len\<rparr>;
                  header_bytes = entry_bytes entry
              in case slog_push_bytes rb (take SIZEOF_ENTRY header_bytes) of
                   (False, rb') \<Rightarrow> st\<lparr>g_log_buffer := Some rb'\<rparr>
                 | (True, rb') \<Rightarrow>
                     st\<lparr>g_log_buffer :=
                          Some (snd (slog_push_bytes rb' (take (len + 1) message)))\<rparr>)"

text \<open>
  The local array \<open>message\<close> of \<open>flush\<close> has 128 bytes. A store through an index is
  checked against the array: an access outside it is the error \<open>Message_out_of_bounds\<close>.
\<close>

datatype mem_error = Message_out_of_bounds

definition array_store :: "u8 list \<Rightarrow> nat \<Rightarrow> u8 \<Rightarrow> mem_error + u8 list" where
  "array_store a i b = (if i < length a then Inr (a[i := b]) else Inl Message_out_of_bounds)"

text \<open>
  The header loop of \<open>flush\<close>, \<open>for (size_t i = 0; i < sizeof(entry); i++)\<close>.
  \<open>header_bytes\<close> are the bytes of \<open>entry\<close> written so far. A failed pop returns from
  \<open>flush\<close>: the flag is false then.
\<close>

function slog_read_header :: "ring_buffer \<Rightarrow> nat \<Rightarrow> u8 list \<Rightarrow> bool \<times> u8 list \<times> ring_buffer" where
  "slog_read_header rb i header_bytes =
     (if i < SIZEOF_ENTRY then
        (case osusat_ring_buffer_pop rb of
           None \<Rightarrow> (False, header_bytes, rb)
         | Some (b, rb') \<Rightarrow> slog_read_header rb' (i + 1) (header_bytes @ [b]))
      else (True, header_bytes, rb))"
  by pat_completeness auto
termination
  by (relation "measure (\<lambda>(rb, i, header_bytes). SIZEOF_ENTRY - i)") auto

declare slog_read_header.simps [simp del]

text \<open>
  The message loop of \<open>flush\<close>,
  \<open>for (msg_idx = 0; msg_idx <= entry.message_len; msg_idx++)\<close>, with its three exits.
\<close>

function slog_read_message ::
  "nat \<Rightarrow> nat \<Rightarrow> ring_buffer \<Rightarrow> u8 list \<Rightarrow> mem_error + (u8 list \<times> ring_buffer)" where
  "slog_read_message message_len msg_idx rb message =
     (if msg_idx \<le> message_len then
        if msg_idx \<ge> MAX_LOG_MESSAGE_LEN then Inr (message, rb)
        else
          (case osusat_ring_buffer_pop rb of
             None \<Rightarrow>
               (case array_store message msg_idx 0 of
                  Inl err \<Rightarrow> Inl err
                | Inr message' \<Rightarrow> Inr (message', rb))
           | Some (b, rb') \<Rightarrow>
               (case array_store message msg_idx b of
                  Inl err \<Rightarrow> Inl err
                | Inr message' \<Rightarrow>
                    if message' ! msg_idx = 0 then Inr (message', rb')
                    else slog_read_message message_len (msg_idx + 1) rb' message'))
      else Inr (message, rb))"
  by pat_completeness auto
termination
  by (relation "measure (\<lambda>(message_len, msg_idx, rb, message). message_len + 1 - msg_idx)") auto

declare slog_read_message.simps [simp del]

text \<open>
  One call \<open>flush_fn(&entry, message, ctx)\<close>: the entry, the 128 bytes of \<open>message\<close>
  and the context. The string the callback reads is \<open>c_string message\<close>, the bytes
  before the first zero.
\<close>

type_synonym 'c flush_call = "osusat_slog_entry_t \<times> u8 list \<times> 'c"

definition c_string :: "u8 list \<Rightarrow> u8 list" where
  "c_string a = takeWhile (\<lambda>b. b \<noteq> 0) a"

text \<open>
  One iteration of the loop \<open>while (true)\<close> of \<open>flush\<close>, from the test for an
  empty buffer to the call of \<open>flush_fn\<close>. \<open>junk\<close> is what the local array
  \<open>message\<close> holds when the iteration declares it. The iteration leaves the loop
  (\<open>Flush_stop\<close>: the \<open>break\<close> on an empty buffer and the \<open>return count\<close> of the
  header loop), or makes one call and goes on (\<open>Flush_call\<close>).
\<close>

datatype 'c flush_step =
  Flush_stop ring_buffer
| Flush_fault mem_error
| Flush_call "'c flush_call" ring_buffer

definition slog_flush_iteration :: "ring_buffer \<Rightarrow> u8 list \<Rightarrow> 'c \<Rightarrow> 'c flush_step" where
  "slog_flush_iteration rb junk ctx =
     (if osusat_ring_buffer_empty rb then Flush_stop rb
      else
        (case slog_read_header rb 0 [] of
           (False, header_bytes, rb') \<Rightarrow> Flush_stop rb'
         | (True, header_bytes, rb') \<Rightarrow>
             (case slog_read_message (unat (entry_message_len (entry_of_bytes header_bytes)))
                     0 rb' junk of
                Inl err \<Rightarrow> Flush_fault err
              | Inr (message, rb'') \<Rightarrow>
                  (case array_store message (MAX_LOG_MESSAGE_LEN - 1) 0 of
                     Inl err \<Rightarrow> Flush_fault err
                   | Inr message' \<Rightarrow>
                       Flush_call (entry_of_bytes header_bytes, message', ctx) rb''))))"

text \<open>
  The loop. \<open>junk n\<close> is the junk of the iteration that starts with \<open>count = n\<close>. The
  result is the count, the calls made and the buffer; not returning is \<open>None\<close>.
\<close>

partial_function (option) slog_flush_loop ::
  "ring_buffer \<Rightarrow> (nat \<Rightarrow> u8 list) \<Rightarrow> 'c \<Rightarrow> nat \<Rightarrow> 'c flush_call list
     \<Rightarrow> (mem_error + (nat \<times> 'c flush_call list \<times> ring_buffer)) option" where
  "slog_flush_loop rb junk ctx count calls =
     (case slog_flush_iteration rb (junk count) ctx of
        Flush_stop rb' \<Rightarrow> Some (Inr (count, calls, rb'))
      | Flush_fault err \<Rightarrow> Some (Inl err)
      | Flush_call call rb' \<Rightarrow> slog_flush_loop rb' junk ctx (count + 1) (calls @ [call]))"

text \<open>
  \<open>osusat_slog_flush(flush_fn, ctx)\<close>. The callback is an opaque function pointer,
  \<open>None\<close> when null; its invocations are recorded.
\<close>

definition osusat_slog_flush ::
  "'w slog_state \<Rightarrow> 'f option \<Rightarrow> 'c \<Rightarrow> (nat \<Rightarrow> u8 list)
     \<Rightarrow> (mem_error + (nat \<times> 'c flush_call list \<times> 'w slog_state)) option" where
  "osusat_slog_flush st flush_fn ctx junk =
     (case g_log_buffer st of
        None \<Rightarrow> Some (Inr (0, [], st))
      | Some rb \<Rightarrow>
          if flush_fn = None then Some (Inr (0, [], st))
          else
            (case slog_flush_loop rb junk ctx 0 [] of
               None \<Rightarrow> None
             | Some (Inl err) \<Rightarrow> Some (Inl err)
             | Some (Inr (count, calls, rb')) \<Rightarrow>
                 Some (Inr (count, calls, st\<lparr>g_log_buffer := Some rb'\<rparr>))))"

definition osusat_slog_pending_count :: "'w slog_state \<Rightarrow> nat" where
  "osusat_slog_pending_count st =
     (case g_log_buffer st of
        None \<Rightarrow> 0
      | Some rb \<Rightarrow> osusat_ring_buffer_size rb div 40)"

text \<open>
  Three states of the test suite. \<open>demo_log\<close> is the logger of \<open>test_basic_logging\<close>:
  a store of 512 bytes in overwrite mode, the mock timestamp function that returns the
  test's counter, minimum level \<open>DEBUG\<close>. \<open>used_log\<close> is that logger after one write,
  \<open>"Entry 0"\<close> at level \<open>INFO\<close> from component \<open>0x10\<close>, line 1, with the counter at
  999. \<open>torn_log\<close> is a store of 32 bytes in overwrite mode after two writes of 18 bytes
  each, \<open>"Entry 0"\<close> and \<open>"Entry 1"\<close> at level \<open>INFO\<close> from component \<open>0x10\<close>, lines 1
  and 2, without a timestamp function.
\<close>

definition demo_log :: "nat slog_state" where
  "demo_log =
     osusat_slog_init (Some (osusat_ring_buffer_init (replicate 512 0) 512 True))
       (Some of_nat) OSUSAT_SLOG_DEBUG"

definition used_log :: "nat slog_state" where
  "used_log =
     osusat_slog_write_internal demo_log 999 (replicate 128 0) OSUSAT_SLOG_INFO 0x10 1
       (Some [0x45, 0x6E, 0x74, 0x72, 0x79, 0x20, 0x30])"


text \<open>The count that a returning, fault-free \<open>flush\<close> returns.\<close>

definition flush_count ::
  "(mem_error + (nat \<times> 'c flush_call list \<times> 'w slog_state)) option \<Rightarrow> nat option" where
  "flush_count r = (case r of Some (Inr (count, calls, st)) \<Rightarrow> Some count | _ \<Rightarrow> None)"

text \<open>The entries and the strings that the callback was given, in the order of the calls.\<close>

definition flush_records ::
  "(mem_error + (nat \<times> 'c flush_call list \<times> 'w slog_state)) option
     \<Rightarrow> (osusat_slog_entry_t \<times> u8 list) list option" where
  "flush_records r =
     (case r of
        Some (Inr (count, calls, st)) \<Rightarrow>
          Some (map (\<lambda>call. (fst call, c_string (fst (snd call)))) calls)
      | _ \<Rightarrow> None)"

section \<open>Power-of-two test\<close>

lemma nat_and_pred_eq_0_iff:
  fixes n :: nat
  assumes "0 < n"
  shows "(n AND (n - 1) = 0) = (\<exists>k. n = 2 ^ k)"
  using assms
proof (induction n rule: less_induct)
  case (less n)
  show ?case
  proof (cases "even n")
    case True
    then obtain m where m: "n = 2 * m" by (auto elim: evenE)
    with less.prems have mpos: "0 < m" by simp
    have pred: "n - 1 = 2 * (m - 1) + 1" using m mpos by simp
    have "n AND (n - 1) = 2 * (m AND (m - 1))"
      unfolding pred unfolding m
      by (simp add: and_nat_unfold[of "2 * m"])
    moreover have "(m AND (m - 1) = 0) = (\<exists>k. m = 2 ^ k)"
      using less.IH[of m] m mpos by simp
    moreover have "(\<exists>k. m = 2 ^ k) = (\<exists>k. n = 2 ^ k)"
    proof
      assume "\<exists>k. m = 2 ^ k"
      then obtain k where "m = 2 ^ k" ..
      then have "n = 2 ^ Suc k" using m by simp
      then show "\<exists>k. n = 2 ^ k" ..
    next
      assume "\<exists>k. n = 2 ^ k"
      then obtain k where k: "n = 2 ^ k" ..
      with True have "k \<noteq> 0" by (cases k) auto
      then obtain j where "k = Suc j" by (cases k) auto
      with k m have "m = 2 ^ j" by simp
      then show "\<exists>k. m = 2 ^ k" ..
    qed
    ultimately show ?thesis by simp
  next
    case False
    then obtain m where m: "n = 2 * m + 1" by (auto elim: oddE)
    have "n AND (n - 1) = 2 * m"
      unfolding m by (simp add: and_nat_unfold[of "Suc (2 * m)"])
    moreover have "(\<exists>k. n = 2 ^ k) = (m = 0)"
    proof
      assume "\<exists>k. n = 2 ^ k"
      then obtain k where k: "n = 2 ^ k" ..
      with False have "k = 0" by (cases k) auto
      with k m show "m = 0" by simp
    next
      assume "m = 0"
      then have "n = 2 ^ 0" using m by simp
      then show "\<exists>k. n = 2 ^ k" ..
    qed
    ultimately show ?thesis by auto
  qed
qed

lemma osusat_is_pow2_iff:
  fixes x :: "'a::len word"
  shows "osusat_is_pow2 x = (\<exists>k<LENGTH('a). x = 2 ^ k)"
proof (cases "x = 0")
  case True
  then show ?thesis by (auto simp: osusat_is_pow2_def)
next
  case False
  then have pos: "0 < unat x" by (simp add: unat_gt_0)
  have "unat (x - 1) = unat x - 1" using False by (simp add: unat_minus_one)
  then have "unat (x AND (x - 1)) = unat x AND (unat x - 1)" by (simp add: unsigned_and_eq)
  then have "(x AND (x - 1) = 0) = (unat x AND (unat x - 1) = 0)"
    by (metis unat_eq_0)
  also have "\<dots> = (\<exists>k. unat x = 2 ^ k)" by (rule nat_and_pred_eq_0_iff[OF pos])
  also have "\<dots> = (\<exists>k<LENGTH('a). x = 2 ^ k)"
  proof
    assume "\<exists>k. unat x = 2 ^ k"
    then obtain k where k: "unat x = 2 ^ k" ..
    have "unat x < 2 ^ LENGTH('a)" by (rule unsigned_less)
    with k have "k < LENGTH('a)" by simp
    moreover have "x = 2 ^ k"
    proof -
      have "x = of_nat (unat x)" by simp
      also have "\<dots> = 2 ^ k" unfolding k by simp
      finally show ?thesis .
    qed
    ultimately show "\<exists>k<LENGTH('a). x = 2 ^ k" by blast
  next
    assume "\<exists>k<LENGTH('a). x = 2 ^ k"
    then obtain k where kl: "k < LENGTH('a)" and xk: "x = 2 ^ k" by blast
    have "unat x = 2 ^ k" using kl by (simp add: xk of_nat_inverse)
    then show "\<exists>k. unat x = 2 ^ k" ..
  qed
  finally show ?thesis using False by (simp add: osusat_is_pow2_def)
qed

text \<open>
  C8. Initialisation of the power-of-two ring buffer succeeds exactly when the capacity is
  a power of two, for every width of \<open>size_t\<close>. On success the mask is
  \<open>capacity - 1\<close>, head and tail are 0 and the buffer is empty; on failure the handle
  is returned as it was passed in.
\<close>

theorem pow2_init_iff_power_of_two:
  fixes capacity :: "'a::len word"
  shows
    "(fst (osusat_ring_buffer_pow2_init rb storage capacity)
        \<longleftrightarrow> (\<exists>k<LENGTH('a). capacity = 2 ^ k)) \<and>
     (fst (osusat_ring_buffer_pow2_init rb storage capacity) \<longrightarrow>
        p2_buffer (snd (osusat_ring_buffer_pow2_init rb storage capacity)) = storage \<and>
        p2_capacity (snd (osusat_ring_buffer_pow2_init rb storage capacity)) = capacity \<and>
        p2_mask (snd (osusat_ring_buffer_pow2_init rb storage capacity)) = capacity - 1 \<and>
        p2_head (snd (osusat_ring_buffer_pow2_init rb storage capacity)) = 0 \<and>
        p2_tail (snd (osusat_ring_buffer_pow2_init rb storage capacity)) = 0 \<and>
        osusat_ring_buffer_pow2_empty (snd (osusat_ring_buffer_pow2_init rb storage capacity))) \<and>
     (\<not> fst (osusat_ring_buffer_pow2_init rb storage capacity) \<longrightarrow>
        snd (osusat_ring_buffer_pow2_init rb storage capacity) = rb)"
proof -
  have "fst (osusat_ring_buffer_pow2_init rb storage capacity) = osusat_is_pow2 capacity"
    by (simp add: osusat_ring_buffer_pow2_init_def)
  then show ?thesis
    by (simp add: osusat_is_pow2_iff osusat_ring_buffer_pow2_init_def
        osusat_ring_buffer_pow2_empty_def)
qed

text \<open>
  The scenario of the test suite on a 32-bit \<open>size_t\<close>: capacity 8 succeeds with
  mask 7 and an empty buffer; capacities 10 and 0 fail and leave the handle untouched.
\<close>

theorem pow2_init_iff_power_of_two_witness:
  "fst (osusat_ring_buffer_pow2_init
          \<lparr>p2_buffer = [], p2_capacity = 5, p2_mask = 6, p2_head = 7, p2_tail = 9\<rparr>
          (replicate 8 0) (8 :: 32 word)) \<and>
   p2_mask (snd (osusat_ring_buffer_pow2_init
          \<lparr>p2_buffer = [], p2_capacity = 5, p2_mask = 6, p2_head = 7, p2_tail = 9\<rparr>
          (replicate 8 0) (8 :: 32 word))) = 7 \<and>
   osusat_ring_buffer_pow2_empty (snd (osusat_ring_buffer_pow2_init
          \<lparr>p2_buffer = [], p2_capacity = 5, p2_mask = 6, p2_head = 7, p2_tail = 9\<rparr>
          (replicate 8 0) (8 :: 32 word))) \<and>
   \<not> fst (osusat_ring_buffer_pow2_init
          \<lparr>p2_buffer = [], p2_capacity = 5, p2_mask = 6, p2_head = 7, p2_tail = 9\<rparr>
          (replicate 10 0) (10 :: 32 word)) \<and>
   snd (osusat_ring_buffer_pow2_init
          \<lparr>p2_buffer = [], p2_capacity = 5, p2_mask = 6, p2_head = 7, p2_tail = 9\<rparr>
          (replicate 10 0) (10 :: 32 word))
     = \<lparr>p2_buffer = [], p2_capacity = 5, p2_mask = 6, p2_head = 7, p2_tail = 9\<rparr> \<and>
   \<not> fst (osusat_ring_buffer_pow2_init
          \<lparr>p2_buffer = [], p2_capacity = 5, p2_mask = 6, p2_head = 7, p2_tail = 9\<rparr>
          [] (0 :: 32 word))"
proof -
  let ?rb = "\<lparr>p2_buffer = [], p2_capacity = 5 :: 32 word, p2_mask = 6, p2_head = 7, p2_tail = 9\<rparr>"
  have p8: "\<exists>k<LENGTH(32). (8 :: 32 word) = 2 ^ k"
    by (rule exI [of _ 3]) simp
  have n10: "\<not> osusat_is_pow2 (10 :: 32 word)"
    by (simp add: osusat_is_pow2_def)
  have n0: "\<not> osusat_is_pow2 (0 :: 32 word)"
    by (simp add: osusat_is_pow2_def)
  have f10: "\<not> fst (osusat_ring_buffer_pow2_init ?rb (replicate 10 0) (10 :: 32 word))"
    using n10 by (simp add: osusat_ring_buffer_pow2_init_def)
  have f0: "\<not> fst (osusat_ring_buffer_pow2_init ?rb [] (0 :: 32 word))"
    using n0 by (simp add: osusat_ring_buffer_pow2_init_def)
  from pow2_init_iff_power_of_two [of ?rb "replicate 8 0" "8 :: 32 word"] p8
  have ok8: "fst (osusat_ring_buffer_pow2_init ?rb (replicate 8 0) (8 :: 32 word))"
    by blast
  with pow2_init_iff_power_of_two [of ?rb "replicate 8 0" "8 :: 32 word"]
  have fields8:
    "p2_mask (snd (osusat_ring_buffer_pow2_init ?rb (replicate 8 0) (8 :: 32 word))) = 8 - 1"
    "osusat_ring_buffer_pow2_empty
       (snd (osusat_ring_buffer_pow2_init ?rb (replicate 8 0) (8 :: 32 word)))"
    by blast+
  from pow2_init_iff_power_of_two [of ?rb "replicate 10 0" "10 :: 32 word"] f10
  have same10: "snd (osusat_ring_buffer_pow2_init ?rb (replicate 10 0) (10 :: 32 word)) = ?rb"
    by blast
  from ok8 fields8 f10 same10 f0 show ?thesis by simp
qed

section \<open>Event bus: dispatch and the processing loop\<close>

lemma bus_dispatch_eq:
  "sub_count \<le> length subs \<Longrightarrow> i \<le> sub_count \<Longrightarrow>
   bus_dispatch subs sub_count e i calls = calls @ matching_calls (drop i (take sub_count subs)) e"
proof (induction subs sub_count e i calls rule: bus_dispatch.induct)
  case (1 subs sub_count e i calls)
  show ?case
  proof (cases "i < sub_count")
    case True
    then have d: "drop i (take sub_count subs) = subs ! i # drop (i + 1) (take sub_count subs)"
      using "1.prems" Cons_nth_drop_Suc[of i "take sub_count subs"] by simp
    have "bus_dispatch subs sub_count e i calls =
          bus_dispatch subs sub_count e (i + 1)
            (if sub_id (subs ! i) = ev_id e
             then calls @ [(sub_handler (subs ! i), e, sub_ctx (subs ! i))] else calls)"
      using True by (subst bus_dispatch.simps) simp
    also have "\<dots> = (if sub_id (subs ! i) = ev_id e
             then calls @ [(sub_handler (subs ! i), e, sub_ctx (subs ! i))] else calls)
           @ matching_calls (drop (i + 1) (take sub_count subs)) e"
      using True "1.prems" by (intro "1.IH") simp_all
    also have "\<dots> = calls @ matching_calls (drop i (take sub_count subs)) e"
      unfolding d by (simp add: matching_calls_def)
    finally show ?thesis .
  next
    case False
    with "1.prems" have "i = sub_count" by simp
    then show ?thesis
      by (subst bus_dispatch.simps) (simp add: matching_calls_def)
  qed
qed

lemma bus_pending_count_step:
  assumes "0 < bus_capacity bus" "bus_head bus < bus_capacity bus" "bus_tail bus < bus_capacity bus"
    and "bus_tail bus \<noteq> bus_head bus"
  shows "bus_pending_count (bus\<lparr>bus_tail := (bus_tail bus + 1) mod bus_capacity bus\<rparr>)
           = bus_pending_count bus - 1"
    and "0 < bus_pending_count bus"
    and "bus_pending_count bus < bus_capacity bus"
  using assms by (auto simp: bus_pending_count_def mod_Suc)

lemma bus_pending_count_0:
  "bus_head bus < bus_capacity bus \<Longrightarrow> bus_tail bus < bus_capacity bus \<Longrightarrow>
   (bus_pending_count bus = 0) = (bus_tail bus = bus_head bus)"
  by (auto simp: bus_pending_count_def)

lemma bus_process_loop_eq:
  assumes "0 < bus_capacity bus" "bus_head bus < bus_capacity bus" "bus_tail bus < bus_capacity bus"
  shows "bus_process_loop bus q calls =
         Some (bus\<lparr>bus_tail := bus_head bus\<rparr>,
               foldl (\<lambda>cs k. bus_dispatch (bus_subs bus) (bus_sub_count bus)
                                (q ! ((bus_tail bus + k) mod bus_capacity bus)) 0 cs)
                     calls [0..<bus_pending_count bus])"
  using assms
proof (induction n \<equiv> "bus_pending_count bus" arbitrary: bus calls)
  case 0
  then have "bus_tail bus = bus_head bus" by (simp add: bus_pending_count_0)
  then show ?case using 0 by (subst bus_process_loop.simps) simp
next
  case (Suc n)
  let ?bus1 = "bus\<lparr>bus_tail := (bus_tail bus + 1) mod bus_capacity bus\<rparr>"
  let ?c1 = "bus_dispatch (bus_subs bus) (bus_sub_count bus) (q ! bus_tail bus) 0 calls"
  from Suc have ne: "bus_tail bus \<noteq> bus_head bus" by (auto simp: bus_pending_count_def)
  have cnt: "bus_pending_count ?bus1 = n"
    using bus_pending_count_step(1)[OF Suc.prems ne] Suc.hyps(2) by simp
  have idx: "\<And>k. (bus_tail ?bus1 + k) mod bus_capacity bus = (bus_tail bus + Suc k) mod bus_capacity bus"
    by (simp add: mod_simps)
  have "bus_process_loop bus q calls = bus_process_loop ?bus1 q ?c1"
    using ne by (subst bus_process_loop.simps) simp
  also have "\<dots> = Some (?bus1\<lparr>bus_tail := bus_head ?bus1\<rparr>,
               foldl (\<lambda>cs k. bus_dispatch (bus_subs ?bus1) (bus_sub_count ?bus1)
                                (q ! ((bus_tail ?bus1 + k) mod bus_capacity ?bus1)) 0 cs)
                     ?c1 [0..<bus_pending_count ?bus1])"
    using Suc.prems cnt by (intro Suc.hyps(1)) simp_all
  also have "\<dots> = Some (bus\<lparr>bus_tail := bus_head bus\<rparr>,
               foldl (\<lambda>cs k. bus_dispatch (bus_subs bus) (bus_sub_count bus)
                                (q ! ((bus_tail bus + k) mod bus_capacity bus)) 0 cs)
                     calls [0..<bus_pending_count bus])"
  proof -
    have u: "[0..<Suc n] = 0 # map Suc [0..<n]"
      by (simp add: upt_conv_Cons map_Suc_upt del: upt_Suc)
    have cnt': "bus_pending_count (bus\<lparr>bus_tail := Suc (bus_tail bus) mod bus_capacity bus\<rparr>) = n"
      using cnt by simp
    have idx': "\<And>k. (Suc (bus_tail bus) mod bus_capacity bus + k) mod bus_capacity bus
                 = Suc (bus_tail bus + k) mod bus_capacity bus"
      by (simp add: mod_simps)
    show ?thesis
      using Suc.prems(3) by (simp add: cnt' Suc.hyps(2)[symmetric] idx' u foldl_map del: upt_Suc)
  qed
  finally show ?case .
qed

section \<open>Event bus: the queue\<close>

lemma mod_add_small:
  fixes a c :: nat
  assumes "a < 2 * c"
  shows "a mod c = (if a < c then a else a - c)"
  using assms by (simp add: le_mod_geq)

lemma bus_tail_plus_count:
  assumes "bus_head bus < bus_capacity bus" "bus_tail bus < bus_capacity bus"
  shows "(bus_tail bus + bus_pending_count bus) mod bus_capacity bus = bus_head bus"
  using assms by (auto simp: bus_pending_count_def mod_add_small)

lemma bus_tail_plus_less:
  assumes "bus_head bus < bus_capacity bus" "bus_tail bus < bus_capacity bus"
    and "k < bus_pending_count bus"
  shows "(bus_tail bus + k) mod bus_capacity bus \<noteq> bus_head bus"
  using assms by (auto simp: bus_pending_count_def mod_add_small split: if_splits)

lemma bus_pending_count_less:
  assumes "bus_head bus < bus_capacity bus" "bus_tail bus < bus_capacity bus"
  shows "bus_pending_count bus < bus_capacity bus"
  using assms by (auto simp: bus_pending_count_def)

lemma bus_full_iff:
  assumes "bus_head bus < bus_capacity bus" "bus_tail bus < bus_capacity bus"
  shows "((bus_head bus + 1) mod bus_capacity bus = bus_tail bus)
           = (bus_pending_count bus = bus_capacity bus - 1)"
  using assms by (auto simp: bus_pending_count_def mod_add_small split: if_splits)

lemma bus_pending_count_publish:
  assumes "bus_head bus < bus_capacity bus" "bus_tail bus < bus_capacity bus"
    and "(bus_head bus + 1) mod bus_capacity bus \<noteq> bus_tail bus"
  shows "bus_pending_count (bus\<lparr>bus_queue := qq, bus_head := (bus_head bus + 1) mod bus_capacity bus\<rparr>)
           = bus_pending_count bus + 1"
  using assms by (auto simp: bus_pending_count_def mod_add_small split: if_splits)

lemma length_bus_pending:
  "bus_queue bus = Some q \<Longrightarrow> length (bus_pending bus) = bus_pending_count bus"
  by (simp add: bus_pending_def)

lemma bus_pending_publish:
  assumes "bus_queue bus = Some q" "length q = bus_capacity bus"
    and "bus_head bus < bus_capacity bus" "bus_tail bus < bus_capacity bus"
    and "(bus_head bus + 1) mod bus_capacity bus \<noteq> bus_tail bus"
  shows "bus_pending (bus\<lparr>bus_queue := Some (q[bus_head bus := slot]),
                          bus_head := (bus_head bus + 1) mod bus_capacity bus\<rparr>)
           = bus_pending bus @ [slot]"
proof -
  let ?bus' = "bus\<lparr>bus_queue := Some (q[bus_head bus := slot]),
                    bus_head := (bus_head bus + 1) mod bus_capacity bus\<rparr>"
  let ?n = "bus_pending_count bus"
  have cnt: "bus_pending_count ?bus' = ?n + 1"
    by (rule bus_pending_count_publish[OF assms(3,4,5)])
  have old: "map (\<lambda>k. q[bus_head bus := slot] ! ((bus_tail bus + k) mod bus_capacity bus)) [0..<?n]
             = map (\<lambda>k. q ! ((bus_tail bus + k) mod bus_capacity bus)) [0..<?n]"
  proof (rule map_cong [OF refl])
    fix k assume "k \<in> set [0..<?n]"
    then have "(bus_tail bus + k) mod bus_capacity bus \<noteq> bus_head bus"
      using bus_tail_plus_less[OF assms(3,4)] by simp
    then show "q[bus_head bus := slot] ! ((bus_tail bus + k) mod bus_capacity bus)
               = q ! ((bus_tail bus + k) mod bus_capacity bus)"
      by (simp add: nth_list_update_neq)
  qed
  have new: "q[bus_head bus := slot] ! ((bus_tail bus + ?n) mod bus_capacity bus) = slot"
    using bus_tail_plus_count[OF assms(3,4)] assms(2,3) by simp
  have "bus_pending ?bus' =
        map (\<lambda>k. q[bus_head bus := slot] ! ((bus_tail bus + k) mod bus_capacity bus)) [0..<?n + 1]"
    using cnt by (simp add: bus_pending_def del: upt_Suc)
  also have "\<dots> = bus_pending bus @ [slot]"
    using old new assms(1) by (simp add: bus_pending_def)
  finally show ?thesis .
qed

section \<open>Event bus: subscribe\<close>

lemma bus_table_subscribe:
  assumes "bus_sub_count bus < length (bus_subs bus)"
  shows "bus_table (bus\<lparr>bus_subs := (bus_subs bus)[bus_sub_count bus := s],
                        bus_sub_count := bus_sub_count bus + 1\<rparr>) = bus_table bus @ [s]"
  using assms by (simp add: bus_table_def take_Suc_conv_app_nth)

lemma subscribe_sub_count_le:
  "bus_sub_count bus \<le> OSUSAT_EVENT_MAX_SUBSCRIBERS \<Longrightarrow>
   bus_sub_count (snd (osusat_event_bus_subscribe bus event_id handler ctx))
     \<le> OSUSAT_EVENT_MAX_SUBSCRIBERS"
  by (simp add: osusat_event_bus_subscribe_def)

lemma subscribe_indices_ok:
  "bus_indices_ok bus \<Longrightarrow>
   bus_indices_ok (snd (osusat_event_bus_subscribe bus event_id handler ctx))"
  by (simp add: osusat_event_bus_subscribe_def bus_indices_ok_def split: option.splits)

lemma publish_sub_count:
  "bus_sub_count (snd (osusat_event_bus_publish bus event_id payload len)) = bus_sub_count bus"
  by (simp add: osusat_event_bus_publish_def Let_def split: option.splits)

lemma publish_indices_ok:
  "bus_indices_ok bus \<Longrightarrow>
   bus_indices_ok (snd (osusat_event_bus_publish bus event_id payload len))"
  by (auto simp: osusat_event_bus_publish_def bus_indices_ok_def Let_def split: option.splits)

lemma init_indices_ok: "bus_indices_ok (osusat_event_bus_init queue_storage queue_capacity)"
  by (auto simp: osusat_event_bus_init_def bus_indices_ok_def bus_zero_def)

lemma init_sub_count: "bus_sub_count (osusat_event_bus_init queue_storage queue_capacity) = 0"
  by (simp add: osusat_event_bus_init_def bus_zero_def)

lemma process_returns:
  assumes "bus_indices_ok bus"
  shows "\<exists>bus' calls. osusat_event_bus_process bus = Some (bus', calls) \<and>
           bus_sub_count bus' = bus_sub_count bus \<and> bus_indices_ok bus'"
proof (cases "bus_queue bus")
  case None
  then show ?thesis using assms by (simp add: osusat_event_bus_process_def)
next
  case (Some q)
  with assms have "0 < bus_capacity bus" "bus_head bus < bus_capacity bus"
    "bus_tail bus < bus_capacity bus" by (simp_all add: bus_indices_ok_def)
  from bus_process_loop_eq[OF this] Some assms show ?thesis
    by (simp add: osusat_event_bus_process_def bus_indices_ok_def)
qed

lemma bus_step_returns:
  assumes "bus_indices_ok bus" "bus_sub_count bus \<le> OSUSAT_EVENT_MAX_SUBSCRIBERS"
  shows "\<exists>bus'. bus_step bus x = Some bus' \<and> bus_indices_ok bus' \<and>
           bus_sub_count bus' \<le> OSUSAT_EVENT_MAX_SUBSCRIBERS"
proof (cases x)
  case (Op_init queue_storage queue_capacity)
  then show ?thesis by (simp add: init_indices_ok init_sub_count)
next
  case (Op_subscribe event_id handler ctx)
  then show ?thesis using assms by (simp add: subscribe_indices_ok subscribe_sub_count_le)
next
  case (Op_publish event_id payload len)
  then show ?thesis using assms by (simp add: publish_indices_ok publish_sub_count)
next
  case Op_process
  from process_returns[OF assms(1)] obtain bus' calls where
    "osusat_event_bus_process bus = Some (bus', calls)"
    "bus_sub_count bus' = bus_sub_count bus" "bus_indices_ok bus'" by blast
  with Op_process assms(2) show ?thesis by simp
qed

lemma bus_run_returns:
  assumes "bus_indices_ok bus" "bus_sub_count bus \<le> OSUSAT_EVENT_MAX_SUBSCRIBERS"
  shows "\<exists>bus'. bus_run bus xs = Some bus' \<and> bus_indices_ok bus' \<and>
           bus_sub_count bus' \<le> OSUSAT_EVENT_MAX_SUBSCRIBERS"
  using assms
proof (induction xs arbitrary: bus)
  case Nil
  then show ?case by simp
next
  case (Cons x xs)
  from bus_step_returns[OF Cons.prems] obtain bus1 where
    s: "bus_step bus x = Some bus1" and ok: "bus_indices_ok bus1"
    "bus_sub_count bus1 \<le> OSUSAT_EVENT_MAX_SUBSCRIBERS" by blast
  from Cons.IH[OF ok] s show ?case by simp
qed

text \<open>
  C5. \<open>subscribe\<close> returns false and leaves the bus as it was when the table holds 128
  entries or the handler is null. Otherwise, whatever the event id (a duplicate
  included), it writes the subscription at index \<open>sub_count\<close>, which is the end of the
  live table, increments the count and returns true. From a bus whose count is at most
  128 (the zeroed static bus, or any bus after \<open>init\<close>), every sequence of the four
  operations returns with a count of at most 128.
\<close>

theorem subscribe_appends_or_rejects:
  "(bus_sub_count bus \<ge> 128 \<or> handler = None \<longrightarrow>
      osusat_event_bus_subscribe bus event_id handler ctx = (False, bus)) \<and>
   (bus_sub_count bus < 128 \<and> handler \<noteq> None \<longrightarrow>
      osusat_event_bus_subscribe bus event_id handler ctx =
        (True, bus\<lparr>bus_subs := (bus_subs bus)[bus_sub_count bus :=
                        \<lparr>sub_id = event_id, sub_handler = handler, sub_ctx = ctx\<rparr>],
                    bus_sub_count := bus_sub_count bus + 1\<rparr>) \<and>
      (length (bus_subs bus) = 128 \<longrightarrow>
         bus_table (snd (osusat_event_bus_subscribe bus event_id handler ctx))
           = bus_table bus @ [\<lparr>sub_id = event_id, sub_handler = handler, sub_ctx = ctx\<rparr>])) \<and>
   (bus_sub_count bus \<le> 128 \<and> bus_indices_ok bus \<longrightarrow>
      (\<forall>ops. \<exists>bus'. bus_run bus ops = Some bus' \<and> bus_sub_count bus' \<le> 128))"
proof (intro conjI impI allI)
  assume "128 \<le> bus_sub_count bus \<or> handler = None"
  then show "osusat_event_bus_subscribe bus event_id handler ctx = (False, bus)"
    by (auto simp: osusat_event_bus_subscribe_def OSUSAT_EVENT_MAX_SUBSCRIBERS_def)
next
  assume a: "bus_sub_count bus < 128 \<and> handler \<noteq> None"
  then show "osusat_event_bus_subscribe bus event_id handler ctx =
        (True, bus\<lparr>bus_subs := (bus_subs bus)[bus_sub_count bus :=
                        \<lparr>sub_id = event_id, sub_handler = handler, sub_ctx = ctx\<rparr>],
                    bus_sub_count := bus_sub_count bus + 1\<rparr>)"
    by (simp add: osusat_event_bus_subscribe_def OSUSAT_EVENT_MAX_SUBSCRIBERS_def)
  assume "length (bus_subs bus) = 128"
  with a show "bus_table (snd (osusat_event_bus_subscribe bus event_id handler ctx))
           = bus_table bus @ [\<lparr>sub_id = event_id, sub_handler = handler, sub_ctx = ctx\<rparr>]"
    using bus_table_subscribe[of bus]
    by (simp add: osusat_event_bus_subscribe_def OSUSAT_EVENT_MAX_SUBSCRIBERS_def)
next
  fix ops
  assume "bus_sub_count bus \<le> 128 \<and> bus_indices_ok bus"
  then show "\<exists>bus'. bus_run bus ops = Some bus' \<and> bus_sub_count bus' \<le> 128"
    using bus_run_returns[of bus ops] by (auto simp: OSUSAT_EVENT_MAX_SUBSCRIBERS_def)
qed

text \<open>
  On the zeroed bus the first subscription lands at index 0 and the table is that one
  entry; a bus whose count is 128 and a null handler are both refused without a change;
  a run of all four operations returns.
\<close>

theorem subscribe_appends_or_rejects_witness:
  "osusat_event_bus_subscribe (bus_zero :: (nat, nat) event_bus) 7 (Some 1) None =
     (True, bus_zero\<lparr>bus_subs := (bus_subs bus_zero)[0 :=
                        \<lparr>sub_id = 7, sub_handler = Some 1, sub_ctx = None\<rparr>],
                    bus_sub_count := 1\<rparr>) \<and>
   bus_table (snd (osusat_event_bus_subscribe (bus_zero :: (nat, nat) event_bus) 7 (Some 1) None))
     = [\<lparr>sub_id = 7, sub_handler = Some 1, sub_ctx = None\<rparr>] \<and>
   osusat_event_bus_subscribe ((bus_zero :: (nat, nat) event_bus)\<lparr>bus_sub_count := 128\<rparr>)
       7 (Some 1) None = (False, bus_zero\<lparr>bus_sub_count := 128\<rparr>) \<and>
   osusat_event_bus_subscribe (bus_zero :: (nat, nat) event_bus) 7 None None = (False, bus_zero) \<and>
   (\<exists>bus'. bus_run (bus_zero :: (nat, nat) event_bus)
              [Op_init (Some []) 4, Op_subscribe 7 (Some 1) None, Op_publish 7 None 0, Op_process]
              = Some bus' \<and> bus_sub_count bus' \<le> 128)"
proof -
  let ?z = "bus_zero :: (nat, nat) event_bus"
  have c0: "bus_sub_count ?z = 0" and q0: "bus_queue ?z = None"
    and l0: "length (bus_subs ?z) = 128"
    by (simp_all add: bus_zero_def OSUSAT_EVENT_MAX_SUBSCRIBERS_def)
  have t0: "bus_table ?z = []" by (simp add: bus_table_def c0)
  have i0: "bus_indices_ok ?z" by (simp add: bus_indices_ok_def q0)
  have h: "Some (1::nat) \<noteq> None" by simp
  have p: "bus_sub_count ?z < 128 \<and> Some (1::nat) \<noteq> None"
    and p': "bus_sub_count ?z \<le> 128 \<and> bus_indices_ok ?z"
    by (simp_all add: c0 i0)
  note full = subscribe_appends_or_rejects [of ?z "Some 1" 7 None]
  from full p have raw_a: "osusat_event_bus_subscribe ?z 7 (Some 1) None =
     (True, ?z\<lparr>bus_subs := (bus_subs ?z)[bus_sub_count ?z :=
                        \<lparr>sub_id = 7, sub_handler = Some 1, sub_ctx = None\<rparr>],
                    bus_sub_count := bus_sub_count ?z + 1\<rparr>)"
    by blast
  from full p l0 have raw_b: "bus_table (snd (osusat_event_bus_subscribe ?z 7 (Some 1) None))
     = bus_table ?z @ [\<lparr>sub_id = 7, sub_handler = Some 1, sub_ctx = None\<rparr>]"
    by blast
  from full p' have r: "\<forall>ops. \<exists>bus'. bus_run ?z ops = Some bus' \<and> bus_sub_count bus' \<le> 128"
    by blast
  from raw_a have a: "osusat_event_bus_subscribe ?z 7 (Some 1) None =
     (True, ?z\<lparr>bus_subs := (bus_subs ?z)[0 :=
                        \<lparr>sub_id = 7, sub_handler = Some 1, sub_ctx = None\<rparr>],
                    bus_sub_count := 1\<rparr>)"
    by (simp add: c0)
  from raw_b have b: "bus_table (snd (osusat_event_bus_subscribe ?z 7 (Some 1) None))
     = [\<lparr>sub_id = 7, sub_handler = Some 1, sub_ctx = None\<rparr>]"
    by (simp only: t0 append_Nil)
  from subscribe_appends_or_rejects [of "?z\<lparr>bus_sub_count := 128\<rparr>" "Some 1" 7 None]
  have c: "osusat_event_bus_subscribe (?z\<lparr>bus_sub_count := 128\<rparr>) 7 (Some 1) None
             = (False, ?z\<lparr>bus_sub_count := 128\<rparr>)"
    by simp
  from subscribe_appends_or_rejects [of ?z None 7 None]
  have d: "osusat_event_bus_subscribe ?z 7 None None = (False, ?z)"
    by simp
  from a b c d r show ?thesis by blast
qed

section \<open>Event bus: publish\<close>

lemma publish_full:
  assumes "bus_queue bus = Some q" "(bus_head bus + 1) mod bus_capacity bus = bus_tail bus"
  shows "osusat_event_bus_publish bus event_id payload len = (False, bus)"
  using assms by (simp add: osusat_event_bus_publish_def Let_def)

lemma publish_unbound:
  assumes "bus_queue bus = None"
  shows "osusat_event_bus_publish bus event_id payload len = (False, bus)"
  using assms by (simp add: osusat_event_bus_publish_def)

lemma publish_enqueues:
  assumes "bus_queue bus = Some q" "(bus_head bus + 1) mod bus_capacity bus \<noteq> bus_tail bus"
  shows "\<exists>slot. osusat_event_bus_publish bus event_id payload len =
           (True, bus\<lparr>bus_queue := Some (q[bus_head bus := slot]),
                       bus_head := (bus_head bus + 1) mod bus_capacity bus\<rparr>) \<and>
           event_carries (event_id, payload, len) slot"
proof -
  have u: "unat (of_nat (min len 32) :: u8) = min len 32"
    by (simp add: unat_of_nat min_def)
  have m: "(if 32 < len then 32 else len) = min len 32" by simp
  show ?thesis
    using assms unfolding osusat_event_bus_publish_def OSUSAT_EVENT_MAX_PAYLOAD_def Let_def m
    by (cases payload) (auto simp: event_carries_def u memcpy_def)
qed

lemma publish_inv:
  assumes "bus_inv bus"
  shows "bus_inv (snd (osusat_event_bus_publish bus event_id payload len))"
  using assms
  by (auto simp: osusat_event_bus_publish_def bus_inv_def Let_def split: option.splits)

text \<open>
  C2. On an initialised bus, the queue is full (\<open>(head + 1) mod capacity = tail\<close>) exactly
  when it holds \<open>capacity - 1\<close> pending events. Then \<open>publish\<close> returns false and the
  bus after the call is the bus before it. When the queue is not full, \<open>publish\<close> returns
  true, has written one slot, the one at \<open>head\<close>, with the id and the length of the
  request, has advanced \<open>head\<close> by one modulo the capacity, and the new event is the last
  of the pending events.
\<close>

theorem publish_rejects_when_full:
  assumes "bus_inv bus" and "bus_queue bus = Some q"
  shows
    "((bus_head bus + 1) mod bus_capacity bus = bus_tail bus
        \<longleftrightarrow> length (bus_pending bus) = bus_capacity bus - 1) \<and>
     ((bus_head bus + 1) mod bus_capacity bus = bus_tail bus \<longrightarrow>
        osusat_event_bus_publish bus event_id payload len = (False, bus)) \<and>
     ((bus_head bus + 1) mod bus_capacity bus \<noteq> bus_tail bus \<longrightarrow>
        (\<exists>slot. osusat_event_bus_publish bus event_id payload len =
                  (True, bus\<lparr>bus_queue := Some (q[bus_head bus := slot]),
                              bus_head := (bus_head bus + 1) mod bus_capacity bus\<rparr>) \<and>
                event_carries (event_id, payload, len) slot \<and>
                bus_pending (snd (osusat_event_bus_publish bus event_id payload len))
                  = bus_pending bus @ [slot]))"
proof -
  from assms have idx: "bus_head bus < bus_capacity bus" "bus_tail bus < bus_capacity bus"
    and len: "length q = bus_capacity bus"
    by (simp_all add: bus_inv_def)
  have full: "((bus_head bus + 1) mod bus_capacity bus = bus_tail bus)
                = (length (bus_pending bus) = bus_capacity bus - 1)"
    using bus_full_iff[OF idx] length_bus_pending[OF assms(2)] by simp
  have rej: "(bus_head bus + 1) mod bus_capacity bus = bus_tail bus \<longrightarrow>
        osusat_event_bus_publish bus event_id payload len = (False, bus)"
    using publish_full[OF assms(2)] by blast
  have acc: "(bus_head bus + 1) mod bus_capacity bus \<noteq> bus_tail bus \<longrightarrow>
        (\<exists>slot. osusat_event_bus_publish bus event_id payload len =
                  (True, bus\<lparr>bus_queue := Some (q[bus_head bus := slot]),
                              bus_head := (bus_head bus + 1) mod bus_capacity bus\<rparr>) \<and>
                event_carries (event_id, payload, len) slot \<and>
                bus_pending (snd (osusat_event_bus_publish bus event_id payload len))
                  = bus_pending bus @ [slot])"
  proof
    assume nf: "(bus_head bus + 1) mod bus_capacity bus \<noteq> bus_tail bus"
    from publish_enqueues[OF assms(2) nf, of event_id payload len] obtain slot where
      p: "osusat_event_bus_publish bus event_id payload len =
           (True, bus\<lparr>bus_queue := Some (q[bus_head bus := slot]),
                       bus_head := (bus_head bus + 1) mod bus_capacity bus\<rparr>)"
      and c: "event_carries (event_id, payload, len) slot" by blast
    have "bus_pending (snd (osusat_event_bus_publish bus event_id payload len))
            = bus_pending bus @ [slot]"
      unfolding p snd_conv by (rule bus_pending_publish[OF assms(2) len idx nf])
    with p c show "\<exists>slot. osusat_event_bus_publish bus event_id payload len =
                  (True, bus\<lparr>bus_queue := Some (q[bus_head bus := slot]),
                              bus_head := (bus_head bus + 1) mod bus_capacity bus\<rparr>) \<and>
                event_carries (event_id, payload, len) slot \<and>
                bus_pending (snd (osusat_event_bus_publish bus event_id payload len))
                  = bus_pending bus @ [slot]"
      by blast
  qed
  from full rej acc show ?thesis by blast
qed

section \<open>Event bus: the stored payload\<close>

lemma event_all_fields:
  "(slot :: event)\<lparr>ev_id := a, ev_payload_len := c, ev_payload := b\<rparr>
     = \<lparr>ev_id = a, ev_payload = b, ev_payload_len = c\<rparr>"
  by (cases slot) simp

text \<open>
  C9. On an initialised bus whose queue is not full and whose slot at \<open>head\<close> has its 32
  payload bytes, \<open>publish\<close> succeeds whatever the payload pointer and the length. With a
  null payload, or with length 0, the stored event has the id, a length of
  \<open>min len 32\<close> and 32 zero bytes. With a payload of \<open>len\<close> bytes, \<open>0 < len < 32\<close>, the
  stored payload is these bytes followed by what the slot held from index \<open>len\<close> on.
\<close>

theorem publish_payload_zero_fill_or_prefix:
  assumes "bus_inv bus" and "bus_queue bus = Some q"
    and "(bus_head bus + 1) mod bus_capacity bus \<noteq> bus_tail bus"
    and "length (ev_payload (q ! bus_head bus)) = 32"
  shows
    "fst (osusat_event_bus_publish bus event_id payload len) \<and>
     unat (of_nat (min len 32) :: u8) = min len 32 \<and>
     (payload = None \<or> len = 0 \<longrightarrow>
        osusat_event_bus_publish bus event_id payload len =
          (True, bus\<lparr>bus_queue := Some (q[bus_head bus :=
                         \<lparr>ev_id = event_id, ev_payload = replicate 32 0,
                          ev_payload_len = of_nat (min len 32)\<rparr>]),
                      bus_head := (bus_head bus + 1) mod bus_capacity bus\<rparr>)) \<and>
     (\<forall>p. payload = Some p \<and> 0 < len \<and> len < 32 \<and> len \<le> length p \<longrightarrow>
        osusat_event_bus_publish bus event_id payload len =
          (True, bus\<lparr>bus_queue := Some (q[bus_head bus :=
                         \<lparr>ev_id = event_id,
                          ev_payload = take len p @ drop len (ev_payload (q ! bus_head bus)),
                          ev_payload_len = of_nat len\<rparr>]),
                      bus_head := (bus_head bus + 1) mod bus_capacity bus\<rparr>) \<and>
        length (take len p @ drop len (ev_payload (q ! bus_head bus))) = 32)"
proof -
  have m: "(if 32 < len then 32 else len) = min len 32" by simp
  have u: "unat (of_nat (min len 32) :: u8) = min len 32"
    by (simp add: unat_of_nat min_def)
  have ok: "fst (osusat_event_bus_publish bus event_id payload len)"
    using assms(2,3) by (simp add: osusat_event_bus_publish_def Let_def)
  have z: "payload = None \<or> len = 0 \<longrightarrow>
        osusat_event_bus_publish bus event_id payload len =
          (True, bus\<lparr>bus_queue := Some (q[bus_head bus :=
                         \<lparr>ev_id = event_id, ev_payload = replicate 32 0,
                          ev_payload_len = of_nat (min len 32)\<rparr>]),
                      bus_head := (bus_head bus + 1) mod bus_capacity bus\<rparr>)"
    using assms(2,3,4)
    unfolding osusat_event_bus_publish_def OSUSAT_EVENT_MAX_PAYLOAD_def Let_def m
    by (cases payload) (auto simp: memset_def event_all_fields)
  have c: "\<forall>p. payload = Some p \<and> 0 < len \<and> len < 32 \<and> len \<le> length p \<longrightarrow>
        osusat_event_bus_publish bus event_id payload len =
          (True, bus\<lparr>bus_queue := Some (q[bus_head bus :=
                         \<lparr>ev_id = event_id,
                          ev_payload = take len p @ drop len (ev_payload (q ! bus_head bus)),
                          ev_payload_len = of_nat len\<rparr>]),
                      bus_head := (bus_head bus + 1) mod bus_capacity bus\<rparr>) \<and>
        length (take len p @ drop len (ev_payload (q ! bus_head bus))) = 32"
    using assms(2,3,4)
    unfolding osusat_event_bus_publish_def OSUSAT_EVENT_MAX_PAYLOAD_def Let_def m
    by (auto simp: memcpy_def event_all_fields min_def)
  from ok u z c show ?thesis by blast
qed

section \<open>Event bus: delivery\<close>

lemma foldl_append_calls:
  "foldl (\<lambda>cs k. cs @ g k) calls ks = calls @ concat (map g ks)"
  by (induction ks arbitrary: calls) simp_all

lemma process_eq_matching_calls:
  assumes "bus_inv bus" "bus_queue bus = Some q"
  shows "osusat_event_bus_process bus =
           Some (bus\<lparr>bus_tail := bus_head bus\<rparr>,
                 concat (map (matching_calls (bus_table bus)) (bus_pending bus)))"
proof -
  from assms have idx: "0 < bus_capacity bus" "bus_head bus < bus_capacity bus"
    "bus_tail bus < bus_capacity bus"
    and n: "bus_sub_count bus \<le> length (bus_subs bus)"
    by (simp_all add: bus_inv_def)
  have d: "\<And>e cs. bus_dispatch (bus_subs bus) (bus_sub_count bus) e 0 cs
                   = cs @ matching_calls (bus_table bus) e"
    using bus_dispatch_eq[OF n, of 0] by (simp add: bus_table_def)
  show ?thesis
    using assms(2)
    by (simp add: osusat_event_bus_process_def bus_process_loop_eq[OF idx] d
        foldl_append_calls bus_pending_def comp_def)
qed

lemma publish_table:
  "bus_table (snd (osusat_event_bus_publish bus event_id payload len)) = bus_table bus"
  by (simp add: osusat_event_bus_publish_def bus_table_def Let_def split: option.splits)

lemma publish_queue_bound:
  "bus_queue bus \<noteq> None \<Longrightarrow>
   bus_queue (snd (osusat_event_bus_publish bus event_id payload len)) \<noteq> None"
  by (auto simp: osusat_event_bus_publish_def Let_def split: option.splits)

lemma publish_enqueues_pending:
  assumes "bus_inv bus" "bus_queue bus = Some q"
    and "(bus_head bus + 1) mod bus_capacity bus \<noteq> bus_tail bus"
  shows "fst (osusat_event_bus_publish bus event_id payload len) \<and>
         (\<exists>slot. event_carries (event_id, payload, len) slot \<and>
            bus_pending (snd (osusat_event_bus_publish bus event_id payload len))
              = bus_pending bus @ [slot])"
proof -
  from assms have idx: "bus_head bus < bus_capacity bus" "bus_tail bus < bus_capacity bus"
    and len: "length q = bus_capacity bus"
    by (simp_all add: bus_inv_def)
  from publish_enqueues[OF assms(2,3), of event_id payload len] obtain slot where
    p: "osusat_event_bus_publish bus event_id payload len =
         (True, bus\<lparr>bus_queue := Some (q[bus_head bus := slot]),
                     bus_head := (bus_head bus + 1) mod bus_capacity bus\<rparr>)"
    and c: "event_carries (event_id, payload, len) slot" by blast
  have "bus_pending (snd (osusat_event_bus_publish bus event_id payload len))
          = bus_pending bus @ [slot]"
    unfolding p snd_conv by (rule bus_pending_publish[OF assms(2) len idx assms(3)])
  with p c show ?thesis by auto
qed

lemma publish_all_pending:
  assumes "bus_inv bus" "bus_queue bus \<noteq> None"
    and "length (bus_pending bus) + length reqs \<le> bus_capacity bus - 1"
  shows "fst (publish_all bus reqs) \<and> bus_inv (snd (publish_all bus reqs)) \<and>
         bus_queue (snd (publish_all bus reqs)) \<noteq> None \<and>
         bus_table (snd (publish_all bus reqs)) = bus_table bus \<and>
         (\<exists>evs. bus_pending (snd (publish_all bus reqs)) = bus_pending bus @ evs \<and>
                list_all2 event_carries reqs evs)"
  using assms
proof (induction reqs arbitrary: bus)
  case Nil
  then show ?case by simp
next
  case (Cons r rs)
  obtain event_id payload len where r: "r = (event_id, payload, len)" by (cases r)
  let ?res = "osusat_event_bus_publish bus event_id payload len"
  from Cons.prems(2) obtain q where q: "bus_queue bus = Some q" by auto
  from Cons.prems(1) q have idx: "bus_head bus < bus_capacity bus" "bus_tail bus < bus_capacity bus"
    by (simp_all add: bus_inv_def)
  have nf: "(bus_head bus + 1) mod bus_capacity bus \<noteq> bus_tail bus"
    using bus_full_iff[OF idx] length_bus_pending[OF q] Cons.prems(3) by simp
  from publish_enqueues_pending[OF Cons.prems(1) q nf, of event_id payload len]
  obtain slot where ok: "fst ?res" and c: "event_carries (event_id, payload, len) slot"
    and p: "bus_pending (snd ?res) = bus_pending bus @ [slot]" by blast
  have cap: "bus_capacity (snd ?res) = bus_capacity bus"
    by (simp add: osusat_event_bus_publish_def Let_def split: option.splits)
  have room: "length (bus_pending (snd ?res)) + length rs \<le> bus_capacity (snd ?res) - 1"
    using Cons.prems(3) p cap by simp
  have pa: "publish_all bus (r # rs) = publish_all (snd ?res) rs"
    using ok r by (cases ?res) auto
  from Cons.IH[OF publish_inv[OF Cons.prems(1)] publish_queue_bound[OF Cons.prems(2)] room]
  obtain evs where ok1: "fst (publish_all (snd ?res) rs)"
    and inv1: "bus_inv (snd (publish_all (snd ?res) rs))"
    and b1: "bus_queue (snd (publish_all (snd ?res) rs)) \<noteq> None"
    and t1: "bus_table (snd (publish_all (snd ?res) rs)) = bus_table (snd ?res)"
    and p1: "bus_pending (snd (publish_all (snd ?res) rs)) = bus_pending (snd ?res) @ evs"
    and c1: "list_all2 event_carries rs evs" by blast
  have "bus_pending (snd (publish_all (snd ?res) rs)) = bus_pending bus @ (slot # evs)"
    using p p1 by simp
  moreover have "list_all2 event_carries (r # rs) (slot # evs)" using c c1 r by simp
  ultimately show ?case
    unfolding pa using ok1 inv1 b1 t1 publish_table[of bus event_id payload len] by metis
qed

lemma matching_calls_handlers:
  assumes "list_all (\<lambda>s. sub_handler s \<noteq> None) table"
  shows "list_all (\<lambda>call. fst call \<noteq> None) (concat (map (matching_calls table) evs))"
  using assms by (auto simp: list_all_iff matching_calls_def)

text \<open>
  C3. On an initialised bus, a sequence of publish requests that keeps the number of
  pending events at or below \<open>capacity - 1\<close> is accepted in full, and the pending events
  are then the ones pending before followed by one event per request, in request order.
  One call of \<open>process\<close> on the result returns; its handler invocations are, event by
  event in that order, one invocation per subscription of the live table whose id is
  the event's id, in table order, each through a non-null handler; it leaves the queue
  empty and changes nothing but \<open>tail\<close>.
\<close>

theorem process_delivers_pending_in_order:
  assumes "bus_inv bus" and "bus_queue bus \<noteq> None"
    and "length (bus_pending bus) + length reqs \<le> bus_capacity bus - 1"
  shows
    "fst (publish_all bus reqs) \<and>
     (\<exists>evs. list_all2 event_carries reqs evs \<and>
        bus_pending (snd (publish_all bus reqs)) = bus_pending bus @ evs \<and>
        osusat_event_bus_process (snd (publish_all bus reqs)) =
          Some ((snd (publish_all bus reqs))\<lparr>bus_tail := bus_head (snd (publish_all bus reqs))\<rparr>,
                concat (map (matching_calls (bus_table bus)) (bus_pending bus @ evs))) \<and>
        list_all (\<lambda>call. fst call \<noteq> None)
          (concat (map (matching_calls (bus_table bus)) (bus_pending bus @ evs)))) \<and>
     bus_pending ((snd (publish_all bus reqs))\<lparr>bus_tail := bus_head (snd (publish_all bus reqs))\<rparr>)
       = []"
proof -
  let ?bus1 = "snd (publish_all bus reqs)"
  from publish_all_pending[OF assms] obtain evs where ok: "fst (publish_all bus reqs)"
    and inv1: "bus_inv ?bus1" and b1: "bus_queue ?bus1 \<noteq> None"
    and t1: "bus_table ?bus1 = bus_table bus"
    and p1: "bus_pending ?bus1 = bus_pending bus @ evs"
    and c1: "list_all2 event_carries reqs evs" by blast
  from b1 obtain q1 where q1: "bus_queue ?bus1 = Some q1" by auto
  have pr: "osusat_event_bus_process ?bus1 =
          Some (?bus1\<lparr>bus_tail := bus_head ?bus1\<rparr>,
                concat (map (matching_calls (bus_table bus)) (bus_pending bus @ evs)))"
    using process_eq_matching_calls[OF inv1 q1] by (simp add: t1 p1)
  have "list_all (\<lambda>s. sub_handler s \<noteq> None) (bus_table bus)"
    using assms(1) by (simp add: bus_inv_def bus_table_def)
  then have h: "list_all (\<lambda>call. fst call \<noteq> None)
          (concat (map (matching_calls (bus_table bus)) (bus_pending bus @ evs)))"
    by (rule matching_calls_handlers)
  have e: "bus_pending (?bus1\<lparr>bus_tail := bus_head ?bus1\<rparr>) = []"
    by (simp add: bus_pending_def bus_pending_count_def split: option.splits)
  from ok c1 p1 pr h e show ?thesis by blast
qed

section \<open>Event bus: the invariant is established and kept\<close>

lemma init_inv:
  assumes "length storage = queue_capacity"
  shows "bus_inv (osusat_event_bus_init (Some storage) queue_capacity)"
  using assms by (simp add: osusat_event_bus_init_def bus_inv_def bus_zero_def)

lemma subscribe_inv:
  assumes "bus_inv bus"
  shows "bus_inv (snd (osusat_event_bus_subscribe bus event_id handler ctx))"
proof (cases "bus_sub_count bus \<ge> OSUSAT_EVENT_MAX_SUBSCRIBERS \<or> handler = None")
  case True
  then show ?thesis using assms by (auto simp: osusat_event_bus_subscribe_def)
next
  case False
  then have lt: "bus_sub_count bus < length (bus_subs bus)" using assms by (simp add: bus_inv_def)
  have "take (Suc (bus_sub_count bus)) ((bus_subs bus)[bus_sub_count bus := s])
          = take (bus_sub_count bus) (bus_subs bus) @ [s]" for s
    using lt by (simp add: take_Suc_conv_app_nth)
  then show ?thesis
    using False assms
    by (auto simp: osusat_event_bus_subscribe_def bus_inv_def split: option.splits)
qed

lemma process_inv:
  assumes "bus_inv bus" "osusat_event_bus_process bus = Some (bus', calls)"
  shows "bus_inv bus'"
proof (cases "bus_queue bus")
  case None
  then show ?thesis using assms by (simp add: osusat_event_bus_process_def)
next
  case (Some q)
  from process_eq_matching_calls[OF assms(1) Some] assms(2)
  have "bus' = bus\<lparr>bus_tail := bus_head bus\<rparr>" by simp
  then show ?thesis using assms(1) Some by (simp add: bus_inv_def)
qed

section \<open>Event bus: the scenario\<close>

lemma scenario_bus_inv: "bus_inv scenario_bus"
  unfolding scenario_bus_def by (intro subscribe_inv init_inv) simp

lemma scenario_bus_fields:
  "bus_queue scenario_bus = Some (replicate 4 scenario_slot)"
  "bus_capacity scenario_bus = 4" "bus_head scenario_bus = 0" "bus_tail scenario_bus = 0"
  "bus_sub_count scenario_bus = 2"
  by (simp_all add: scenario_bus_def osusat_event_bus_subscribe_def osusat_event_bus_init_def
      bus_zero_def OSUSAT_EVENT_MAX_SUBSCRIBERS_def)

lemma scenario_bus_table:
  "bus_table scenario_bus =
     [\<lparr>sub_id = 0xBA770001, sub_handler = Some 1, sub_ctx = None\<rparr>,
      \<lparr>sub_id = 0xBA770002, sub_handler = Some 2, sub_ctx = Some 9\<rparr>]"
proof -
  let ?b0 = "osusat_event_bus_init (Some (replicate 4 scenario_slot)) 4 :: (nat, nat) event_bus"
  let ?s1 = "\<lparr>sub_id = 0xBA770001, sub_handler = Some (1::nat), sub_ctx = None :: nat option\<rparr>"
  let ?s2 = "\<lparr>sub_id = 0xBA770002, sub_handler = Some (2::nat), sub_ctx = Some (9::nat)\<rparr>"
  let ?b1 = "?b0\<lparr>bus_subs := (bus_subs ?b0)[bus_sub_count ?b0 := ?s1],
                  bus_sub_count := bus_sub_count ?b0 + 1\<rparr>"
  let ?b2 = "?b1\<lparr>bus_subs := (bus_subs ?b1)[bus_sub_count ?b1 := ?s2],
                  bus_sub_count := bus_sub_count ?b1 + 1\<rparr>"
  have c0: "bus_sub_count ?b0 = 0" and l0: "length (bus_subs ?b0) = 128"
    by (simp_all add: osusat_event_bus_init_def bus_zero_def OSUSAT_EVENT_MAX_SUBSCRIBERS_def)
  have e1: "snd (osusat_event_bus_subscribe ?b0 0xBA770001 (Some 1) None) = ?b1"
    by (simp add: osusat_event_bus_subscribe_def c0 OSUSAT_EVENT_MAX_SUBSCRIBERS_def)
  have e2: "snd (osusat_event_bus_subscribe ?b1 0xBA770002 (Some 2) (Some 9)) = ?b2"
    by (simp add: osusat_event_bus_subscribe_def c0 OSUSAT_EVENT_MAX_SUBSCRIBERS_def)
  have t0: "bus_table ?b0 = []" by (simp add: bus_table_def c0)
  have t1: "bus_table ?b1 = [?s1]"
    using bus_table_subscribe[of ?b0 ?s1] by (simp only: t0 c0 l0 append_Nil)
  have t2: "bus_table ?b2 = [?s1, ?s2]"
    using bus_table_subscribe[of ?b1 ?s2] t1 by (simp add: c0 l0)
  show ?thesis unfolding scenario_bus_def e1 e2 by (rule t2)
qed

lemma scenario_bus_pending: "bus_pending scenario_bus = []"
  by (simp add: bus_pending_def bus_pending_count_def scenario_bus_fields)

text \<open>
  The scenario: events A, B, A are published into the queue of capacity 4; \<open>process\<close>
  invokes handler 1 for the first A, handler 2 for B and handler 1 for the second A, in
  that order, and the queue is empty afterwards.
\<close>

theorem process_delivers_pending_in_order_witness:
  "bus_inv scenario_bus \<and> bus_queue scenario_bus \<noteq> None \<and>
   length (bus_pending scenario_bus) + 3 \<le> bus_capacity scenario_bus - 1 \<and>
   fst (publish_all scenario_bus
          [(0xBA770001, None, 0), (0xBA770002, Some [1, 2, 3], 3), (0xBA770001, Some [], 0)]) \<and>
   (\<exists>bus' calls.
      osusat_event_bus_process (snd (publish_all scenario_bus
          [(0xBA770001, None, 0), (0xBA770002, Some [1, 2, 3], 3), (0xBA770001, Some [], 0)]))
        = Some (bus', calls) \<and>
      map (\<lambda>call. (fst call, ev_id (fst (snd call)), snd (snd call))) calls =
        [(Some 1, 0xBA770001, None), (Some 2, 0xBA770002, Some 9), (Some 1, 0xBA770001, None)] \<and>
      bus_pending bus' = [])"
proof -
  let ?reqs = "[(0xBA770001, None, 0), (0xBA770002, Some [1, 2, 3], 3), (0xBA770001, Some [], 0)]
                 :: publish_request list"
  have h1: "bus_inv scenario_bus" by (rule scenario_bus_inv)
  have h2: "bus_queue scenario_bus \<noteq> None" by (simp add: scenario_bus_fields)
  have h3: "length (bus_pending scenario_bus) + length ?reqs \<le> bus_capacity scenario_bus - 1"
    by (simp add: scenario_bus_pending scenario_bus_fields)
  from process_delivers_pending_in_order [OF h1 h2 h3] obtain evs where
    ok: "fst (publish_all scenario_bus ?reqs)"
    and c: "list_all2 event_carries ?reqs evs"
    and pr: "osusat_event_bus_process (snd (publish_all scenario_bus ?reqs)) =
          Some ((snd (publish_all scenario_bus ?reqs))
                  \<lparr>bus_tail := bus_head (snd (publish_all scenario_bus ?reqs))\<rparr>,
                concat (map (matching_calls (bus_table scenario_bus))
                  (bus_pending scenario_bus @ evs)))"
    and e: "bus_pending ((snd (publish_all scenario_bus ?reqs))
                  \<lparr>bus_tail := bus_head (snd (publish_all scenario_bus ?reqs))\<rparr>) = []"
    by blast
  from c obtain e1 e2 e3 where evs: "evs = [e1, e2, e3]"
    and ids: "ev_id e1 = 0xBA770001" "ev_id e2 = 0xBA770002" "ev_id e3 = 0xBA770001"
    by (auto simp: list_all2_Cons1 event_carries_def)
  have m: "map (\<lambda>call. (fst call, ev_id (fst (snd call)), snd (snd call)))
             (concat (map (matching_calls (bus_table scenario_bus))
                  (bus_pending scenario_bus @ evs))) =
        [(Some 1, 0xBA770001, None), (Some 2, 0xBA770002, Some 9), (Some 1, 0xBA770001, None)]"
    by (simp add: scenario_bus_pending scenario_bus_table evs ids matching_calls_def)
  from h1 h2 h3 ok pr m e show ?thesis by auto
qed

lemma publish_capacity:
  "bus_capacity (snd (osusat_event_bus_publish bus event_id payload len)) = bus_capacity bus"
  by (simp add: osusat_event_bus_publish_def Let_def split: option.splits)

lemma publish_all_capacity:
  "bus_capacity (snd (publish_all bus reqs)) = bus_capacity bus"
proof (induction reqs arbitrary: bus)
  case Nil
  then show ?case by simp
next
  case (Cons r rs)
  obtain event_id payload len where r: "r = (event_id, payload, len)" by (cases r)
  show ?case
    using Cons.IH[of "snd (osusat_event_bus_publish bus event_id payload len)"]
      publish_capacity[of bus event_id payload len]
    by (cases "osusat_event_bus_publish bus event_id payload len") (auto simp: r split: bool.splits)
qed

text \<open>
  With three events pending in the queue of capacity 4 a fourth publish is refused and
  the bus is unchanged; on the empty queue the same publish is accepted, writes slot 0
  and moves \<open>head\<close> to 1.
\<close>

theorem publish_rejects_when_full_witness:
  "bus_inv (snd (publish_all scenario_bus
          [(0xBA770001, None, 0), (0xBA770002, Some [1, 2, 3], 3), (0xBA770001, Some [], 0)])) \<and>
   length (bus_pending (snd (publish_all scenario_bus
          [(0xBA770001, None, 0), (0xBA770002, Some [1, 2, 3], 3), (0xBA770001, Some [], 0)]))) = 3 \<and>
   osusat_event_bus_publish (snd (publish_all scenario_bus
          [(0xBA770001, None, 0), (0xBA770002, Some [1, 2, 3], 3), (0xBA770001, Some [], 0)]))
       5 (Some [1, 2]) 2
     = (False, snd (publish_all scenario_bus
          [(0xBA770001, None, 0), (0xBA770002, Some [1, 2, 3], 3), (0xBA770001, Some [], 0)])) \<and>
   (\<exists>slot. osusat_event_bus_publish scenario_bus 5 (Some [1, 2]) 2 =
            (True, scenario_bus\<lparr>bus_queue := Some ((replicate 4 scenario_slot)[0 := slot]),
                                bus_head := 1\<rparr>) \<and>
          ev_id slot = 5 \<and> unat (ev_payload_len slot) = 2 \<and> take 2 (ev_payload slot) = [1, 2] \<and>
          bus_pending (snd (osusat_event_bus_publish scenario_bus 5 (Some [1, 2]) 2)) = [slot])"
proof -
  let ?reqs = "[(0xBA770001, None, 0), (0xBA770002, Some [1, 2, 3], 3), (0xBA770001, Some [], 0)]
                 :: publish_request list"
  let ?B = "snd (publish_all scenario_bus ?reqs)"
  have h2: "bus_queue scenario_bus \<noteq> None" by (simp add: scenario_bus_fields)
  have h3: "length (bus_pending scenario_bus) + length ?reqs \<le> bus_capacity scenario_bus - 1"
    by (simp add: scenario_bus_pending scenario_bus_fields)
  from publish_all_pending[OF scenario_bus_inv h2 h3] obtain evs where
    inv: "bus_inv ?B" and "bus_queue ?B \<noteq> None"
    and p: "bus_pending ?B = bus_pending scenario_bus @ evs"
    and c: "list_all2 event_carries ?reqs evs" by blast
  then obtain qB where qB: "bus_queue ?B = Some qB" by auto
  from c have "length evs = 3" by (auto dest: list_all2_lengthD)
  with p have len: "length (bus_pending ?B) = 3" by (simp add: scenario_bus_pending)
  have cap: "bus_capacity ?B = 4" by (simp only: publish_all_capacity scenario_bus_fields)
  from publish_rejects_when_full [OF inv qB, of 5 "Some [1, 2]" 2] len cap
  have rej: "osusat_event_bus_publish ?B 5 (Some [1, 2]) 2 = (False, ?B)" by simp
  from publish_rejects_when_full [OF scenario_bus_inv scenario_bus_fields(1), of 5 "Some [1, 2]" 2]
  obtain slot where
    "osusat_event_bus_publish scenario_bus 5 (Some [1, 2]) 2 =
       (True, scenario_bus\<lparr>bus_queue := Some ((replicate 4 scenario_slot)[0 := slot]),
                           bus_head := 1\<rparr>)"
    "event_carries (5, Some [1, 2], 2) slot"
    "bus_pending (snd (osusat_event_bus_publish scenario_bus 5 (Some [1, 2]) 2)) = [slot]"
    by (auto simp: scenario_bus_fields scenario_bus_pending)
  then have acc: "\<exists>slot. osusat_event_bus_publish scenario_bus 5 (Some [1, 2]) 2 =
            (True, scenario_bus\<lparr>bus_queue := Some ((replicate 4 scenario_slot)[0 := slot]),
                                bus_head := 1\<rparr>) \<and>
          ev_id slot = 5 \<and> unat (ev_payload_len slot) = 2 \<and> take 2 (ev_payload slot) = [1, 2] \<and>
          bus_pending (snd (osusat_event_bus_publish scenario_bus 5 (Some [1, 2]) 2)) = [slot]"
    by (auto simp: event_carries_def)
  from inv len rej acc show ?thesis by blast
qed

text \<open>
  On the scenario's bus, whose slot 0 holds 32 bytes \<open>0xAA\<close>: a null payload with
  length 50 stores length 32 and 32 zero bytes; the three bytes 1, 2, 3 are stored in
  front of 29 bytes \<open>0xAA\<close>.
\<close>

theorem publish_payload_zero_fill_or_prefix_witness:
  "osusat_event_bus_publish scenario_bus 5 None 50 =
     (True, scenario_bus\<lparr>bus_queue := Some ((replicate 4 scenario_slot)[0 :=
                             \<lparr>ev_id = 5, ev_payload = replicate 32 0, ev_payload_len = 32\<rparr>]),
                         bus_head := 1\<rparr>) \<and>
   osusat_event_bus_publish scenario_bus 5 (Some [1, 2, 3]) 3 =
     (True, scenario_bus\<lparr>bus_queue := Some ((replicate 4 scenario_slot)[0 :=
                             \<lparr>ev_id = 5, ev_payload = [1, 2, 3] @ replicate 29 0xAA,
                              ev_payload_len = 3\<rparr>]),
                         bus_head := 1\<rparr>)"
proof -
  have nf: "(bus_head scenario_bus + 1) mod bus_capacity scenario_bus \<noteq> bus_tail scenario_bus"
    by (simp add: scenario_bus_fields)
  have l: "length (ev_payload (replicate 4 scenario_slot ! bus_head scenario_bus)) = 32"
    by (simp add: scenario_bus_fields scenario_slot_def)
  have d: "drop 3 (ev_payload scenario_slot) = replicate 29 0xAA"
    by (simp add: scenario_slot_def)
  from publish_payload_zero_fill_or_prefix
         [OF scenario_bus_inv scenario_bus_fields(1) nf l, of 5 None 50]
  have a: "osusat_event_bus_publish scenario_bus 5 None 50 =
     (True, scenario_bus\<lparr>bus_queue := Some ((replicate 4 scenario_slot)[0 :=
                             \<lparr>ev_id = 5, ev_payload = replicate 32 0, ev_payload_len = 32\<rparr>]),
                         bus_head := 1\<rparr>)"
    by (simp add: scenario_bus_fields)
  from publish_payload_zero_fill_or_prefix
         [OF scenario_bus_inv scenario_bus_fields(1) nf l, of 5 "Some [1, 2, 3]" 3]
  have b: "osusat_event_bus_publish scenario_bus 5 (Some [1, 2, 3]) 3 =
     (True, scenario_bus\<lparr>bus_queue := Some ((replicate 4 scenario_slot)[0 :=
                             \<lparr>ev_id = 5, ev_payload = [1, 2, 3] @ replicate 29 0xAA,
                              ev_payload_len = 3\<rparr>]),
                         bus_head := 1\<rparr>)"
    by (simp add: scenario_bus_fields d)
  from a b show ?thesis by blast
qed

section \<open>Ring buffer: size and contents\<close>

lemma rb_size_less:
  "rb_wf rb \<Longrightarrow> osusat_ring_buffer_size rb < rb_capacity rb"
  by (auto simp: rb_wf_def osusat_ring_buffer_size_def)

lemma length_rb_contents [simp]: "length (rb_contents rb) = osusat_ring_buffer_size rb"
  by (simp add: rb_contents_def)

lemma rb_empty_iff_size:
  "rb_wf rb \<Longrightarrow> osusat_ring_buffer_empty rb = (osusat_ring_buffer_size rb = 0)"
  by (auto simp: rb_wf_def osusat_ring_buffer_size_def osusat_ring_buffer_empty_def)

lemma rb_empty_iff_contents:
  "rb_wf rb \<Longrightarrow> osusat_ring_buffer_empty rb = (rb_contents rb = [])"
  using rb_empty_iff_size[of rb] length_rb_contents[of rb]
  by (metis length_0_conv)

lemma rb_full_iff_size:
  "rb_wf rb \<Longrightarrow>
   ((rb_head rb + 1) mod rb_capacity rb = rb_tail rb)
     = (osusat_ring_buffer_size rb = rb_capacity rb - 1)"
  by (auto simp: rb_wf_def osusat_ring_buffer_size_def mod_add_small split: if_splits)

lemma rb_contents_nth:
  "k < osusat_ring_buffer_size rb \<Longrightarrow>
   rb_contents rb ! k = rb_buffer rb ! ((rb_tail rb + k) mod rb_capacity rb)"
  by (simp add: rb_contents_def)

lemma rb_index_head:
  assumes "rb_wf rb"
  shows "(rb_tail rb + osusat_ring_buffer_size rb) mod rb_capacity rb = rb_head rb"
  using assms by (auto simp: rb_wf_def osusat_ring_buffer_size_def mod_add_small)

lemma rb_index_not_head:
  assumes "rb_wf rb" "k < osusat_ring_buffer_size rb"
  shows "(rb_tail rb + k) mod rb_capacity rb \<noteq> rb_head rb"
  using assms
  by (auto simp: rb_wf_def osusat_ring_buffer_size_def mod_add_small split: if_splits)

section \<open>Ring buffer: pop\<close>


lemma pop_nonempty:
  assumes "rb_wf rb" "rb_contents rb = b # bs"
  shows "\<exists>rb'. osusat_ring_buffer_pop rb = Some (b, rb') \<and> rb_wf rb' \<and> rb_contents rb' = bs \<and>
           rb_capacity rb' = rb_capacity rb \<and> rb_overwrite rb' = rb_overwrite rb"
proof -
  let ?rb' = "rb\<lparr>rb_tail := (rb_tail rb + 1) mod rb_capacity rb\<rparr>"
  from assms have ne: "rb_tail rb \<noteq> rb_head rb"
    using rb_empty_iff_contents[of rb] by (auto simp: osusat_ring_buffer_empty_def)
  have sz: "osusat_ring_buffer_size rb = Suc (length bs)"
    using length_rb_contents[of rb] assms(2) by simp
  have b: "rb_buffer rb ! rb_tail rb = b"
    using rb_contents_nth[of 0 rb] sz assms by (simp add: rb_wf_def)
  have wf': "rb_wf ?rb'" using assms(1) by (simp add: rb_wf_def)
  have sz': "osusat_ring_buffer_size ?rb' = length bs"
    using assms(1) ne sz
    by (auto simp: rb_wf_def osusat_ring_buffer_size_def mod_add_small split: if_splits)
  have "rb_contents ?rb' = bs"
  proof (rule nth_equalityI)
    show "length (rb_contents ?rb') = length bs" using sz' by simp
  next
    fix k assume "k < length (rb_contents ?rb')"
    then have k: "k < length bs" using sz' by simp
    have "rb_contents ?rb' ! k
            = rb_buffer rb ! (((rb_tail rb + 1) mod rb_capacity rb + k) mod rb_capacity rb)"
      using k sz' by (simp add: rb_contents_nth)
    also have "\<dots> = rb_buffer rb ! ((rb_tail rb + Suc k) mod rb_capacity rb)"
      by (simp add: mod_simps)
    also have "\<dots> = rb_contents rb ! Suc k"
      using k sz by (simp add: rb_contents_nth)
    also have "\<dots> = bs ! k" using assms(2) by simp
    finally show "rb_contents ?rb' ! k = bs ! k" .
  qed
  with ne b wf' show ?thesis by (simp add: osusat_ring_buffer_pop_def)
qed

section \<open>Ring buffer: push\<close>

lemma keep_last_all: "length xs \<le> n \<Longrightarrow> keep_last n xs = xs"
  by (simp add: keep_last_def)

lemma push_rejected:
  assumes "(rb_head rb + 1) mod rb_capacity rb = rb_tail rb" "\<not> rb_overwrite rb"
  shows "osusat_ring_buffer_push rb b = (False, rb)"
  using assms by (simp add: osusat_ring_buffer_push_def Let_def)

lemma push_not_full:
  assumes "rb_wf rb" "(rb_head rb + 1) mod rb_capacity rb \<noteq> rb_tail rb"
  shows "\<exists>rb'. osusat_ring_buffer_push rb b = (True, rb') \<and> rb_wf rb' \<and>
           rb_contents rb' = rb_contents rb @ [b] \<and>
           rb_capacity rb' = rb_capacity rb \<and> rb_overwrite rb' = rb_overwrite rb"
proof -
  let ?rb' = "rb\<lparr>rb_buffer := (rb_buffer rb)[rb_head rb := b],
                  rb_head := (rb_head rb + 1) mod rb_capacity rb\<rparr>"
  let ?n = "osusat_ring_buffer_size rb"
  have wf': "rb_wf ?rb'" using assms(1) by (simp add: rb_wf_def)
  have sz': "osusat_ring_buffer_size ?rb' = Suc ?n"
    using assms
    by (auto simp: rb_wf_def osusat_ring_buffer_size_def mod_add_small split: if_splits)
  have "rb_contents ?rb' = rb_contents rb @ [b]"
  proof (rule nth_equalityI)
    show "length (rb_contents ?rb') = length (rb_contents rb @ [b])" using sz' by simp
  next
    fix k assume "k < length (rb_contents ?rb')"
    then have k: "k < Suc ?n" using sz' by simp
    have e: "rb_contents ?rb' ! k
               = (rb_buffer rb)[rb_head rb := b] ! ((rb_tail rb + k) mod rb_capacity rb)"
      using k sz' by (simp add: rb_contents_nth)
    show "rb_contents ?rb' ! k = (rb_contents rb @ [b]) ! k"
    proof (cases "k < ?n")
      case True
      then show ?thesis
        using e rb_index_not_head[OF assms(1) True]
        by (simp add: nth_append rb_contents_nth)
    next
      case False
      with k have "k = ?n" by simp
      then show ?thesis
        using e rb_index_head[OF assms(1)] assms(1) by (simp add: nth_append rb_wf_def)
    qed
  qed
  with wf' assms(2) show ?thesis by (simp add: osusat_ring_buffer_push_def Let_def)
qed

lemma push_overwrites:
  assumes "rb_wf rb" "(rb_head rb + 1) mod rb_capacity rb = rb_tail rb" "rb_overwrite rb"
  shows "\<exists>rb'. osusat_ring_buffer_push rb b = (True, rb') \<and> rb_wf rb' \<and>
           rb_contents rb' = keep_last (rb_capacity rb - 1) (rb_contents rb @ [b]) \<and>
           rb_capacity rb' = rb_capacity rb \<and> rb_overwrite rb' = rb_overwrite rb"
proof -
  let ?c = "rb_capacity rb"
  let ?rb' = "rb\<lparr>rb_tail := (rb_tail rb + 1) mod ?c,
                  rb_buffer := (rb_buffer rb)[rb_head rb := b],
                  rb_head := (rb_head rb + 1) mod ?c\<rparr>"
  let ?n = "osusat_ring_buffer_size rb"
  have n: "?n = ?c - 1" using rb_full_iff_size[OF assms(1)] assms(2) by simp
  have wf': "rb_wf ?rb'" using assms(1) by (simp add: rb_wf_def)
  have sz': "osusat_ring_buffer_size ?rb' = ?c - 1"
    using assms(1,2)
    by (auto simp: rb_wf_def osusat_ring_buffer_size_def mod_add_small split: if_splits)
  have kl: "keep_last (?c - 1) (rb_contents rb @ [b]) = drop 1 (rb_contents rb @ [b])"
    using assms(1) by (simp add: keep_last_def n rb_wf_def)
  have "rb_contents ?rb' = drop 1 (rb_contents rb @ [b])"
  proof (rule nth_equalityI)
    show "length (rb_contents ?rb') = length (drop 1 (rb_contents rb @ [b]))"
      using sz' n by simp
  next
    fix k assume "k < length (rb_contents ?rb')"
    then have k: "k < ?c - 1" using sz' by simp
    have e: "rb_contents ?rb' ! k
               = (rb_buffer rb)[rb_head rb := b] ! ((rb_tail rb + Suc k) mod ?c)"
      using k sz' by (simp add: rb_contents_nth mod_simps)
    have d: "drop 1 (rb_contents rb @ [b]) ! k = (rb_contents rb @ [b]) ! Suc k"
      by (subst nth_drop) simp_all
    show "rb_contents ?rb' ! k = drop 1 (rb_contents rb @ [b]) ! k"
    proof (cases "Suc k < ?n")
      case True
      then have "(rb_contents rb @ [b]) ! Suc k
                   = rb_buffer rb ! ((rb_tail rb + Suc k) mod ?c)"
        by (simp add: nth_append rb_contents_nth)
      then show ?thesis
        unfolding d e using rb_index_not_head[OF assms(1) True] by simp
    next
      case False
      with k n have sk: "Suc k = ?n" by simp
      then have "(rb_contents rb @ [b]) ! Suc k = b"
        by (simp add: nth_append)
      then show ?thesis
        unfolding d e sk using rb_index_head[OF assms(1)] assms(1) by (simp add: rb_wf_def)
    qed
  qed
  with wf' assms(2,3) kl show ?thesis
    by (simp add: osusat_ring_buffer_push_def Let_def)
qed

lemma push_overwrite_mode:
  assumes "rb_wf rb" "rb_overwrite rb"
  shows "\<exists>rb'. osusat_ring_buffer_push rb b = (True, rb') \<and> rb_wf rb' \<and>
           rb_contents rb' = keep_last (rb_capacity rb - 1) (rb_contents rb @ [b]) \<and>
           rb_capacity rb' = rb_capacity rb \<and> rb_overwrite rb'"
proof (cases "(rb_head rb + 1) mod rb_capacity rb = rb_tail rb")
  case True
  from push_overwrites[OF assms(1) True assms(2), of b] assms(2) show ?thesis by auto
next
  case False
  have "osusat_ring_buffer_size rb \<noteq> rb_capacity rb - 1"
    using rb_full_iff_size[OF assms(1)] False by simp
  with rb_size_less[OF assms(1)] have "length (rb_contents rb @ [b]) \<le> rb_capacity rb - 1"
    by simp
  then have "keep_last (rb_capacity rb - 1) (rb_contents rb @ [b]) = rb_contents rb @ [b]"
    by (rule keep_last_all)
  with push_not_full[OF assms(1) False, of b] assms(2) show ?thesis by auto
qed

section \<open>Logging: the bytes of an entry\<close>

lemma of_le16_bytes: "of_le16 (ucast x) (ucast (drop_bit 8 x)) = x"
  unfolding of_le16_def
  by (rule bit_word_eqI) (auto simp: bit_simps)

lemma of_le32_bytes:
  "of_le32 (ucast x) (ucast (drop_bit 8 x)) (ucast (drop_bit 16 x)) (ucast (drop_bit 24 x)) = x"
  unfolding of_le32_def
proof (rule bit_word_eqI)
  fix n assume "n < LENGTH(32)"
  then consider "n < 8" | "8 \<le> n" "n < 16" | "16 \<le> n" "n < 24" | "24 \<le> n" "n < 32"
    by fastforce
  then show "bit (ucast (ucast x :: u8) OR push_bit 8 (ucast (ucast (drop_bit 8 x) :: u8)) OR
                  push_bit 16 (ucast (ucast (drop_bit 16 x) :: u8)) OR
                  push_bit 24 (ucast (ucast (drop_bit 24 x) :: u8)) :: u32) n = bit x n"
    by cases (auto simp: bit_simps)
qed

lemma length_entry_bytes [simp]: "length (entry_bytes e) = 10"
  by (simp add: entry_bytes_def le16_def le32_def)

lemma entry_of_bytes_entry_bytes: "entry_of_bytes (entry_bytes e) = e"
  by (simp add: entry_of_bytes_def entry_bytes_def le16_def le32_def of_le16_bytes of_le32_bytes)

section \<open>Logging: pushing the bytes of a record\<close>

lemma keep_last_append_keep_last:
  "keep_last n (keep_last n xs @ ys) = keep_last n (xs @ ys)"
proof (cases "length xs \<le> n")
  case True
  then show ?thesis by (simp add: keep_last_def)
next
  case False
  then have a: "length xs - n + n = length xs" by simp
  show ?thesis
  proof (cases "length ys \<le> n")
    case True
    with False have "length xs + length ys - n = length ys + (length xs - n)" by simp
    with True False show ?thesis by (simp add: keep_last_def a)
  next
    case False
    then have "length xs + length ys - n - length xs = length ys - n" by simp
    with False \<open>\<not> length xs \<le> n\<close> show ?thesis by (simp add: keep_last_def a)
  qed
qed

lemma push_bytes_overwrite_mode:
  assumes "rb_wf rb" "rb_overwrite rb"
  shows "\<exists>rb'. slog_push_bytes rb bs = (True, rb') \<and> rb_wf rb' \<and>
           rb_contents rb' = keep_last (rb_capacity rb - 1) (rb_contents rb @ bs) \<and>
           rb_capacity rb' = rb_capacity rb \<and> rb_overwrite rb'"
  using assms
proof (induction bs arbitrary: rb)
  case Nil
  then show ?case using rb_size_less[of rb] by (simp add: keep_last_all)
next
  case (Cons b bs)
  from push_overwrite_mode[OF Cons.prems, of b] obtain rb1 where
    p: "osusat_ring_buffer_push rb b = (True, rb1)" and wf1: "rb_wf rb1"
    and c1: "rb_contents rb1 = keep_last (rb_capacity rb - 1) (rb_contents rb @ [b])"
    and cap1: "rb_capacity rb1 = rb_capacity rb" and o1: "rb_overwrite rb1" by blast
  from Cons.IH[OF wf1 o1] obtain rb' where
    "slog_push_bytes rb1 bs = (True, rb')" "rb_wf rb'"
    "rb_contents rb' = keep_last (rb_capacity rb1 - 1) (rb_contents rb1 @ bs)"
    "rb_capacity rb' = rb_capacity rb1" "rb_overwrite rb'" by blast
  then show ?case
    using p cap1 c1 keep_last_append_keep_last[of "rb_capacity rb - 1" "rb_contents rb @ [b]" bs]
    by simp
qed

lemma push_bytes_room:
  assumes "rb_wf rb" "length (rb_contents rb) + length bs \<le> rb_capacity rb - 1"
  shows "\<exists>rb'. slog_push_bytes rb bs = (True, rb') \<and> rb_wf rb' \<and>
           rb_contents rb' = rb_contents rb @ bs \<and>
           rb_capacity rb' = rb_capacity rb \<and> rb_overwrite rb' = rb_overwrite rb"
  using assms
proof (induction bs arbitrary: rb)
  case Nil
  then show ?case by simp
next
  case (Cons b bs)
  have nf: "(rb_head rb + 1) mod rb_capacity rb \<noteq> rb_tail rb"
    using rb_full_iff_size[OF Cons.prems(1)] Cons.prems(2) by simp
  from push_not_full[OF Cons.prems(1) nf, of b] obtain rb1 where
    p: "osusat_ring_buffer_push rb b = (True, rb1)" and wf1: "rb_wf rb1"
    and c1: "rb_contents rb1 = rb_contents rb @ [b]"
    and cap1: "rb_capacity rb1 = rb_capacity rb" and o1: "rb_overwrite rb1 = rb_overwrite rb"
    by blast
  have room: "length (rb_contents rb1) + length bs \<le> rb_capacity rb1 - 1"
    using Cons.prems(2) c1 cap1 by simp
  from Cons.IH[OF wf1 room] obtain rb' where
    "slog_push_bytes rb1 bs = (True, rb')" "rb_wf rb'"
    "rb_contents rb' = rb_contents rb1 @ bs"
    "rb_capacity rb' = rb_capacity rb1" "rb_overwrite rb' = rb_overwrite rb1" by blast
  then show ?case using p cap1 c1 o1 by simp
qed

lemma push_bytes_append:
  "slog_push_bytes rb (xs @ ys) =
     (case slog_push_bytes rb xs of
        (False, rb') \<Rightarrow> (False, rb')
      | (True, rb') \<Rightarrow> slog_push_bytes rb' ys)"
  by (induction xs arbitrary: rb) (auto split: prod.splits bool.splits)

section \<open>Logging: what write pushes\<close>

lemma vsnprintf_message:
  "vsnprintf junk 128 (Some out) =
     (take 127 out @ [0] @ drop (min (length out) 127 + 1) junk, int (length out))"
  by (simp add: vsnprintf_def memcpy_def min_def)

lemma write_pushes_record:
  assumes "g_log_buffer st = Some rb"
    and "level_value (g_min_level st) \<le> level_value level"
  shows "osusat_slog_write_internal st w junk level component_id line (Some out) =
           st\<lparr>g_log_buffer := Some (snd (slog_push_bytes rb
               (entry_bytes
                  \<lparr>entry_timestamp_ms = (case g_timestamp_fn st of Some f \<Rightarrow> f w | None \<Rightarrow> 0),
                   entry_level = of_nat (level_value level),
                   entry_component_id = component_id,
                   entry_line = line,
                   entry_message_len = of_nat (min (length out) 127)\<rparr>
                @ take 127 out @ [0])))\<rparr>"
proof -
  let ?len = "min (length out) 127"
  let ?e = "\<lparr>entry_timestamp_ms = (case g_timestamp_fn st of Some f \<Rightarrow> f w | None \<Rightarrow> 0),
             entry_level = of_nat (level_value level),
             entry_component_id = component_id,
             entry_line = line,
             entry_message_len = of_nat ?len\<rparr>"
  obtain ok rb1 where h: "slog_push_bytes rb (entry_bytes ?e) = (ok, rb1)"
    by (cases "slog_push_bytes rb (entry_bytes ?e)")
  have r: "snd (slog_push_bytes rb (entry_bytes ?e @ take 127 out @ [0]))
             = (if ok then snd (slog_push_bytes rb1 (take 127 out @ [0])) else rb1)"
    by (simp add: push_bytes_append h)
  have "osusat_slog_write_internal st w junk level component_id line (Some out)
          = st\<lparr>g_log_buffer :=
                 Some (if ok then snd (slog_push_bytes rb1 (take 127 out @ [0])) else rb1)\<rparr>"
  proof (cases "128 \<le> length out")
    case True
    then have m: "min (length out) 127 = 127" by simp
    show ?thesis
      using assms h True unfolding m
      by (simp add: osusat_slog_write_internal_def vsnprintf_message SIZEOF_ENTRY_def
          MAX_LOG_MESSAGE_LEN_def Let_def)
  next
    case False
    then have m: "min (length out) 127 = length out" by simp
    show ?thesis
      using assms h False unfolding m
      by (simp add: osusat_slog_write_internal_def vsnprintf_message SIZEOF_ENTRY_def
          MAX_LOG_MESSAGE_LEN_def Let_def)
  qed
  then show ?thesis by (simp only: r)
qed

section \<open>Logging: reading a record back\<close>

lemma read_header_complete:
  assumes "rb_wf rb" "rb_contents rb = hs @ rest" "i + length hs = 10"
  shows "\<exists>rb'. slog_read_header rb i acc = (True, acc @ hs, rb') \<and> rb_wf rb' \<and>
           rb_contents rb' = rest \<and> rb_capacity rb' = rb_capacity rb"
  using assms
proof (induction hs arbitrary: rb i acc)
  case Nil
  then show ?case by (subst slog_read_header.simps) (simp add: SIZEOF_ENTRY_def)
next
  case (Cons h hs)
  from Cons.prems(2) have c: "rb_contents rb = h # (hs @ rest)" by simp
  from pop_nonempty[OF Cons.prems(1) c] obtain rb1 where
    p: "osusat_ring_buffer_pop rb = Some (h, rb1)" and wf1: "rb_wf rb1"
    and c1: "rb_contents rb1 = hs @ rest" and cap1: "rb_capacity rb1 = rb_capacity rb" by blast
  have i: "i < 10" "(i + 1) + length hs = 10" using Cons.prems(3) by simp_all
  from Cons.IH[OF wf1 c1 i(2), of "acc @ [h]"] obtain rb' where
    "slog_read_header rb1 (i + 1) (acc @ [h]) = (True, (acc @ [h]) @ hs, rb')"
    "rb_wf rb'" "rb_contents rb' = rest" "rb_capacity rb' = rb_capacity rb1" by blast
  then show ?case
    using p i(1) cap1 by (subst slog_read_header.simps) (simp add: SIZEOF_ENTRY_def)
qed



lemma read_message_string:
  assumes "rb_wf rb" "rb_contents rb = m @ 0 # rest" "0 \<notin> set m"
    and "msg_idx + length m \<le> message_len" "msg_idx + length m < 128" "length message = 128"
  shows "\<exists>rb'. slog_read_message message_len msg_idx rb message =
             Inr (take msg_idx message @ m @ 0 # drop (msg_idx + length m + 1) message, rb') \<and>
           rb_wf rb' \<and> rb_contents rb' = rest \<and> rb_capacity rb' = rb_capacity rb"
  using assms
proof (induction m arbitrary: msg_idx rb message)
  case Nil
  from pop_nonempty[OF Nil.prems(1), of 0 rest] Nil.prems(2) obtain rb1 where
    p: "osusat_ring_buffer_pop rb = Some (0, rb1)" and "rb_wf rb1"
    "rb_contents rb1 = rest" "rb_capacity rb1 = rb_capacity rb" by auto
  moreover have "message[msg_idx := 0] = take msg_idx message @ 0 # drop (msg_idx + 1) message"
    using Nil.prems(5,6) by (simp add: upd_conv_take_nth_drop)
  ultimately show ?case
    using Nil.prems
    by (subst slog_read_message.simps) (simp add: MAX_LOG_MESSAGE_LEN_def array_store_def)
next
  case (Cons b m)
  from Cons.prems(2) have c: "rb_contents rb = b # (m @ 0 # rest)" by simp
  from pop_nonempty[OF Cons.prems(1) c] obtain rb1 where
    p: "osusat_ring_buffer_pop rb = Some (b, rb1)" and wf1: "rb_wf rb1"
    and c1: "rb_contents rb1 = m @ 0 # rest" and cap1: "rb_capacity rb1 = rb_capacity rb"
    by blast
  from Cons.prems(3) have b0: "b \<noteq> 0" and m0: "0 \<notin> set m" by auto
  have i: "(msg_idx + 1) + length m \<le> message_len" "(msg_idx + 1) + length m < 128"
    "length (message[msg_idx := b]) = 128" "msg_idx < 128" "msg_idx \<le> message_len"
    using Cons.prems(4,5,6) by simp_all
  from Cons.IH[OF wf1 c1 m0 i(1,2,3)] obtain rb' where
    r: "slog_read_message message_len (msg_idx + 1) rb1 (message[msg_idx := b]) =
          Inr (take (msg_idx + 1) (message[msg_idx := b]) @ m @
                 0 # drop (msg_idx + 1 + length m + 1) (message[msg_idx := b]), rb')"
    and w: "rb_wf rb'" "rb_contents rb' = rest" "rb_capacity rb' = rb_capacity rb1" by blast
  have t: "take (msg_idx + 1) (message[msg_idx := b]) = take msg_idx message @ [b]"
    using i(4) Cons.prems(6) by (simp add: take_Suc_conv_app_nth)
  have d: "drop (msg_idx + 1 + length m + 1) (message[msg_idx := b])
             = drop (msg_idx + length (b # m) + 1) message"
    by simp
  have "slog_read_message message_len msg_idx rb message =
          slog_read_message message_len (msg_idx + 1) rb1 (message[msg_idx := b])"
    using p b0 i(4,5) Cons.prems(6)
    by (subst slog_read_message.simps) (simp add: MAX_LOG_MESSAGE_LEN_def array_store_def)
  then show ?case using r w cap1 t d by simp
qed

section \<open>Logging: one iteration of flush\<close>


lemma c_string_prefix:
  "0 \<notin> set m \<Longrightarrow> c_string (m @ 0 # ys) = m"
  by (induction m) (auto simp: c_string_def)

lemma c_string_terminated:
  assumes "0 \<notin> set m" "length m \<le> 127"
  shows "c_string ((m @ 0 # xs)[127 := 0]) = m"
proof -
  have "(m @ 0 # xs)[127 := 0] = m @ (0 # xs)[127 - length m := 0]"
    using assms(2) by (simp add: list_update_append)
  also have "(0 # xs)[127 - length m := 0] = 0 # (if 127 - length m = 0 then xs
                                                    else xs[127 - length m - 1 := 0])"
    by (cases "127 - length m") simp_all
  finally show ?thesis
    using assms(1) by (simp add: c_string_prefix)
qed

lemma flush_iteration_record:
  assumes "rb_wf rb" "rb_contents rb = entry_bytes e @ m @ 0 # rest" "0 \<notin> set m"
    and "length m \<le> unat (entry_message_len e)" "length m \<le> 127" "length junk = 128"
  shows "\<exists>msg rb'. slog_flush_iteration rb junk ctx = Flush_call (e, msg, ctx) rb' \<and>
           rb_wf rb' \<and> rb_contents rb' = rest \<and> rb_capacity rb' = rb_capacity rb \<and>
           c_string msg = m \<and> length msg = 128"
proof -
  have ne: "\<not> osusat_ring_buffer_empty rb"
    using rb_empty_iff_contents[OF assms(1)] assms(2)
    by (cases "entry_bytes e") (auto simp del: length_entry_bytes)
  have l: "0 + length (entry_bytes e) = 10" by simp
  from read_header_complete[OF assms(1,2) l, of "[]"] obtain rb1 where
    h: "slog_read_header rb 0 [] = (True, entry_bytes e, rb1)" and wf1: "rb_wf rb1"
    and c1: "rb_contents rb1 = m @ 0 # rest" and cap1: "rb_capacity rb1 = rb_capacity rb"
    by auto
  have i: "0 + length m \<le> unat (entry_message_len e)" "0 + length m < 128"
    using assms(4,5) by simp_all
  from read_message_string[OF wf1 c1 assms(3) i assms(6)] obtain rb2 where
    r: "slog_read_message (unat (entry_message_len e)) 0 rb1 junk =
          Inr (m @ 0 # drop (length m + 1) junk, rb2)"
    and wf2: "rb_wf rb2" and c2: "rb_contents rb2 = rest"
    and cap2: "rb_capacity rb2 = rb_capacity rb1" by auto
  let ?msg = "(m @ 0 # drop (length m + 1) junk)[127 := 0]"
  have lm: "length (m @ 0 # drop (length m + 1) junk) = 128"
    using assms(5,6) by simp
  have st: "array_store (m @ 0 # drop (length m + 1) junk) (MAX_LOG_MESSAGE_LEN - 1) 0
              = Inr ?msg"
    using lm by (simp add: array_store_def MAX_LOG_MESSAGE_LEN_def del: length_append)
  have it: "slog_flush_iteration rb junk ctx = Flush_call (e, ?msg, ctx) rb2"
    using ne h r st by (simp add: slog_flush_iteration_def entry_of_bytes_entry_bytes)
  have "c_string ?msg = m" by (rule c_string_terminated[OF assms(3,5)])
  moreover have "length ?msg = 128" using lm by simp
  ultimately show ?thesis using it wf2 c2 cap1 cap2 by auto
qed

section \<open>Logging: the flush loop\<close>


lemma flush_loop_records:
  assumes "rb_wf rb"
    and "rb_contents rb = concat (map (\<lambda>r. entry_bytes (fst r) @ snd r @ [0]) rs)"
    and "list_all (\<lambda>r. 0 \<notin> set (snd r) \<and> length (snd r) \<le> 127 \<and>
                       length (snd r) \<le> unat (entry_message_len (fst r))) rs"
    and "\<forall>n. length (junk n) = 128"
  shows "\<exists>new rb'. slog_flush_loop rb junk ctx count calls =
             Some (Inr (count + length rs, calls @ new, rb')) \<and>
           rb_wf rb' \<and> rb_contents rb' = [] \<and> rb_capacity rb' = rb_capacity rb \<and>
           list_all2 (\<lambda>r call. fst call = fst r \<and> c_string (fst (snd call)) = snd r \<and>
                        length (fst (snd call)) = 128 \<and> snd (snd call) = ctx) rs new"
  using assms(1,2,3)
proof (induction rs arbitrary: rb count calls)
  case Nil
  then have "osusat_ring_buffer_empty rb" using rb_empty_iff_contents[of rb] by simp
  then have "slog_flush_loop rb junk ctx count calls = Some (Inr (count, calls, rb))"
    by (subst slog_flush_loop.simps) (simp add: slog_flush_iteration_def)
  with Nil show ?case by simp
next
  case (Cons r rs)
  obtain e m where r: "r = (e, m)" by (cases r)
  let ?rest = "concat (map (\<lambda>r. entry_bytes (fst r) @ snd r @ [0]) rs)"
  from Cons.prems(2) r have c: "rb_contents rb = entry_bytes e @ m @ 0 # ?rest" by simp
  from Cons.prems(3) r have ok: "0 \<notin> set m" "length m \<le> unat (entry_message_len e)"
    "length m \<le> 127"
    and oks: "list_all (\<lambda>r. 0 \<notin> set (snd r) \<and> length (snd r) \<le> 127 \<and>
                       length (snd r) \<le> unat (entry_message_len (fst r))) rs"
    by simp_all
  from assms(4) have j: "length (junk count) = 128" by simp
  from flush_iteration_record[OF Cons.prems(1) c ok j, of ctx] obtain msg rb1 where
    it: "slog_flush_iteration rb (junk count) ctx = Flush_call (e, msg, ctx) rb1"
    and wf1: "rb_wf rb1" and c1: "rb_contents rb1 = ?rest"
    and cap1: "rb_capacity rb1 = rb_capacity rb"
    and s: "c_string msg = m" "length msg = 128" by blast
  from Cons.IH[OF wf1 c1 oks, of "count + 1" "calls @ [(e, msg, ctx)]"] obtain new rb' where
    l: "slog_flush_loop rb1 junk ctx (count + 1) (calls @ [(e, msg, ctx)]) =
          Some (Inr (count + 1 + length rs, (calls @ [(e, msg, ctx)]) @ new, rb'))"
    and w: "rb_wf rb'" "rb_contents rb' = []" "rb_capacity rb' = rb_capacity rb1"
    and a: "list_all2 (\<lambda>r call. fst call = fst r \<and> c_string (fst (snd call)) = snd r \<and>
                        length (fst (snd call)) = 128 \<and> snd (snd call) = ctx) rs new"
    by blast
  have "slog_flush_loop rb junk ctx count calls =
          Some (Inr (count + length (r # rs), calls @ (e, msg, ctx) # new, rb'))"
    using it l by (subst slog_flush_loop.simps) simp
  moreover have "list_all2 (\<lambda>r call. fst call = fst r \<and> c_string (fst (snd call)) = snd r \<and>
                        length (fst (snd call)) = 128 \<and> snd (snd call) = ctx)
                   (r # rs) ((e, msg, ctx) # new)"
    using a s r by simp
  ultimately show ?case using w cap1 by (intro exI[of _ "(e, msg, ctx) # new"] exI[of _ rb']) simp
qed

section \<open>Logging: write\<close>

lemma write_filtered:
  assumes "level_value level < level_value (g_min_level st) \<or> g_log_buffer st = None"
  shows "osusat_slog_write_internal st w junk level component_id line formatted = st"
  using assms by (auto simp: osusat_slog_write_internal_def split: option.splits)

lemma write_format_error:
  "osusat_slog_write_internal st w junk level component_id line None = st"
  by (simp add: osusat_slog_write_internal_def vsnprintf_def split: option.splits)

lemma unat_message_len: "unat (of_nat (min n 127) :: u16) = min n 127"
  by (simp add: unat_of_nat min_def)

lemma unat_level: "unat (of_nat (level_value level) :: u8) = level_value level"
  by (cases level) simp_all

lemma write_appends_record:
  assumes "g_log_buffer st = Some rb" "rb_wf rb"
    and "level_value (g_min_level st) \<le> level_value level"
    and "length (rb_contents rb) + 11 + min (length out) 127 \<le> rb_capacity rb - 1"
  shows "\<exists>rb'. osusat_slog_write_internal st w junk level component_id line (Some out)
                 = st\<lparr>g_log_buffer := Some rb'\<rparr> \<and>
           rb_wf rb' \<and> rb_capacity rb' = rb_capacity rb \<and>
           rb_contents rb' = rb_contents rb @
             entry_bytes
               \<lparr>entry_timestamp_ms = (case g_timestamp_fn st of Some f \<Rightarrow> f w | None \<Rightarrow> 0),
                entry_level = of_nat (level_value level),
                entry_component_id = component_id,
                entry_line = line,
                entry_message_len = of_nat (min (length out) 127)\<rparr>
             @ take 127 out @ [0]"
proof -
  let ?bs = "entry_bytes
               \<lparr>entry_timestamp_ms = (case g_timestamp_fn st of Some f \<Rightarrow> f w | None \<Rightarrow> 0),
                entry_level = of_nat (level_value level),
                entry_component_id = component_id,
                entry_line = line,
                entry_message_len = of_nat (min (length out) 127)\<rparr>
             @ take 127 out @ [0]"
  have "length (rb_contents rb) + length ?bs \<le> rb_capacity rb - 1"
    using assms(4) by (simp del: length_rb_contents)
  from push_bytes_room[OF assms(2) this] obtain rb' where
    "slog_push_bytes rb ?bs = (True, rb')" "rb_wf rb'" "rb_contents rb' = rb_contents rb @ ?bs"
    "rb_capacity rb' = rb_capacity rb" by blast
  then show ?thesis
    using write_pushes_record[OF assms(1,3), of w junk component_id line out]
    by (intro exI[of _ rb']) simp
qed


text \<open>
  C6. When the level is below the configured minimum, or no store is bound, \<open>write\<close>
  returns the state it was given: the store, and with it the store's size and bytes, is
  the same before and after the call.
\<close>

theorem write_below_min_level_is_noop:
  assumes "level_value level < level_value (g_min_level st) \<or> g_log_buffer st = None"
  shows
    "osusat_slog_write_internal st w junk level component_id line formatted = st \<and>
     map_option osusat_ring_buffer_size
         (g_log_buffer (osusat_slog_write_internal st w junk level component_id line formatted))
       = map_option osusat_ring_buffer_size (g_log_buffer st) \<and>
     map_option rb_contents
         (g_log_buffer (osusat_slog_write_internal st w junk level component_id line formatted))
       = map_option rb_contents (g_log_buffer st)"
  using write_filtered[OF assms, of w junk component_id line formatted] by simp

text \<open>
  C7. For a bound store and a level that passes the filter, \<open>write\<close> pushes the 10 header
  bytes of an entry and then the first 127 bytes of the formatted output and a zero byte.
  The entry's \<open>message_len\<close> is the length of the output cut at 127: it never exceeds 127,
  and the message bytes pushed, terminator included, are \<open>message_len + 1\<close> \<open>\<le> 128\<close>. In
  overwrite mode every push succeeds and the store then holds the last
  \<open>capacity - 1\<close> bytes of what it held followed by the record. A formatting error
  stores nothing.
\<close>

theorem write_message_len_bounded:
  assumes "g_log_buffer st = Some rb" and "level_value (g_min_level st) \<le> level_value level"
  shows
    "(\<exists>e. osusat_slog_write_internal st w junk level component_id line (Some out) =
            st\<lparr>g_log_buffer :=
                 Some (snd (slog_push_bytes rb (entry_bytes e @ take 127 out @ [0])))\<rparr> \<and>
          unat (entry_message_len e) = min (length out) 127 \<and>
          unat (entry_message_len e) \<le> 127 \<and>
          length (take 127 out @ [0]) = unat (entry_message_len e) + 1 \<and>
          (127 < length out \<longrightarrow> unat (entry_message_len e) = 127 \<and>
                                 length (take 127 out) = 127) \<and>
          (rb_wf rb \<and> rb_overwrite rb \<longrightarrow>
             fst (slog_push_bytes rb (entry_bytes e @ take 127 out @ [0])) \<and>
             rb_contents (snd (slog_push_bytes rb (entry_bytes e @ take 127 out @ [0])))
               = keep_last (rb_capacity rb - 1)
                   (rb_contents rb @ entry_bytes e @ take 127 out @ [0]))) \<and>
     osusat_slog_write_internal st w junk level component_id line None = st"
proof -
  let ?e = "\<lparr>entry_timestamp_ms = (case g_timestamp_fn st of Some f \<Rightarrow> f w | None \<Rightarrow> 0),
             entry_level = of_nat (level_value level),
             entry_component_id = component_id,
             entry_line = line,
             entry_message_len = of_nat (min (length out) 127)\<rparr>"
  let ?bs = "entry_bytes ?e @ take 127 out @ [0]"
  have a: "osusat_slog_write_internal st w junk level component_id line (Some out) =
            st\<lparr>g_log_buffer := Some (snd (slog_push_bytes rb ?bs))\<rparr>"
    by (rule write_pushes_record[OF assms])
  have b: "unat (entry_message_len ?e) = min (length out) 127"
    by (simp add: unat_message_len)
  have c: "rb_wf rb \<and> rb_overwrite rb \<longrightarrow>
             fst (slog_push_bytes rb ?bs) \<and>
             rb_contents (snd (slog_push_bytes rb ?bs))
               = keep_last (rb_capacity rb - 1) (rb_contents rb @ ?bs)"
    using push_bytes_overwrite_mode[of rb ?bs] by auto
  have d: "length (take 127 out @ [0]) = unat (entry_message_len ?e) + 1"
    unfolding b by (simp add: min_def)
  have e: "127 < length out \<longrightarrow> unat (entry_message_len ?e) = 127 \<and> length (take 127 out) = 127"
    unfolding b by simp
  have f: "unat (entry_message_len ?e) \<le> 127" unfolding b by simp
  from a b c d e f write_format_error[of st w junk level component_id line]
  show ?thesis by blast
qed

text \<open>
  C10. \<open>pending_count\<close> is 0 without a store and otherwise the store's size divided by 40,
  rounded down: it is 0 whenever fewer than 40 bytes are buffered.
\<close>

theorem pending_count_is_size_div_40:
  "(g_log_buffer st = None \<longrightarrow> osusat_slog_pending_count st = 0) \<and>
   (\<forall>rb. g_log_buffer st = Some rb \<longrightarrow>
      osusat_slog_pending_count st = osusat_ring_buffer_size rb div 40 \<and>
      (osusat_ring_buffer_size rb < 40 \<longrightarrow> osusat_slog_pending_count st = 0))"
  by (simp add: osusat_slog_pending_count_def)

section \<open>Logging: flush\<close>


lemma flush_unbound_or_null:
  assumes "g_log_buffer st = None \<or> flush_fn = None"
  shows "osusat_slog_flush st flush_fn ctx junk = Some (Inr (0, [], st))"
  using assms by (auto simp: osusat_slog_flush_def split: option.splits)

lemma flush_eq_loop:
  assumes "g_log_buffer st = Some rb" "flush_fn \<noteq> None"
    and "slog_flush_loop rb junk ctx 0 [] = Some (Inr (count, calls, rb'))"
  shows "osusat_slog_flush st flush_fn ctx junk
           = Some (Inr (count, calls, st\<lparr>g_log_buffer := Some rb'\<rparr>))"
  using assms by (auto simp: osusat_slog_flush_def)

text \<open>
  C1, as the code has it. Let the store be bound, well formed and empty when \<open>write\<close> is
  called, with room for the record (10 header bytes, the message cut at 127 and its
  terminator) so that nothing is evicted; let the level pass the filter, and let the
  formatted message \<open>out\<close> have no zero byte among its first 127 bytes. Then \<open>write\<close>
  followed by one \<open>flush\<close> with a non-null callback returns count 1 and makes exactly
  one call. Its entry has the timestamp that the timestamp function gives on the platform
  state of the write (0 without a function), the level, the component id and the line of
  the write, and the message length \<open>min (length out) 127\<close>; the string passed is \<open>out\<close>
  cut at 127 characters; the store is empty afterwards.
\<close>

theorem write_then_flush_round_trip:
  assumes "g_log_buffer st = Some rb" and "rb_wf rb" and "rb_contents rb = []"
    and "level_value (g_min_level st) \<le> level_value level"
    and "0 \<notin> set (take 127 out)"
    and "11 + min (length out) 127 \<le> rb_capacity rb - 1"
    and "flush_fn \<noteq> None" and "\<forall>n. length (junk n) = 128"
  shows
    "\<exists>e msg rb'.
       osusat_slog_flush
           (osusat_slog_write_internal st w wjunk level component_id line (Some out))
           flush_fn ctx junk
         = Some (Inr (1, [(e, msg, ctx)], st\<lparr>g_log_buffer := Some rb'\<rparr>)) \<and>
       entry_timestamp_ms e = (case g_timestamp_fn st of Some f \<Rightarrow> f w | None \<Rightarrow> 0) \<and>
       unat (entry_level e) = level_value level \<and>
       entry_component_id e = component_id \<and>
       entry_line e = line \<and>
       unat (entry_message_len e) = min (length out) 127 \<and>
       c_string msg = take 127 out \<and> length msg = 128 \<and>
       rb_contents rb' = [] \<and> osusat_ring_buffer_empty rb'"
proof -
  let ?e = "\<lparr>entry_timestamp_ms = (case g_timestamp_fn st of Some f \<Rightarrow> f w | None \<Rightarrow> 0),
             entry_level = of_nat (level_value level),
             entry_component_id = component_id,
             entry_line = line,
             entry_message_len = of_nat (min (length out) 127)\<rparr>"
  let ?st1 = "osusat_slog_write_internal st w wjunk level component_id line (Some out)"
  have room: "length (rb_contents rb) + 11 + min (length out) 127 \<le> rb_capacity rb - 1"
    using assms(3,6) by (simp del: length_rb_contents)
  from write_appends_record[OF assms(1,2,4) room, of w wjunk component_id line]
  obtain rb1 where w1: "?st1 = st\<lparr>g_log_buffer := Some rb1\<rparr>" and wf1: "rb_wf rb1"
    and c1: "rb_contents rb1 = entry_bytes ?e @ take 127 out @ [0]"
    using assms(3) by auto
  have c1': "rb_contents rb1 =
               concat (map (\<lambda>r. entry_bytes (fst r) @ snd r @ [0]) [(?e, take 127 out)])"
    using c1 by simp
  have ok: "list_all (\<lambda>r. 0 \<notin> set (snd r) \<and> length (snd r) \<le> 127 \<and>
                       length (snd r) \<le> unat (entry_message_len (fst r))) [(?e, take 127 out)]"
    using assms(5) by (simp add: unat_message_len)
  from flush_loop_records[OF wf1 c1' ok assms(8), of ctx 0 "[]"] obtain new rb' where
    l: "slog_flush_loop rb1 junk ctx 0 [] = Some (Inr (1, new, rb'))"
    and wf': "rb_wf rb'" and e': "rb_contents rb' = []"
    and a: "list_all2 (\<lambda>r call. fst call = fst r \<and> c_string (fst (snd call)) = snd r \<and>
                        length (fst (snd call)) = 128 \<and> snd (snd call) = ctx)
              [(?e, take 127 out)] new"
    by auto
  from a obtain msg where new: "new = [(?e, msg, ctx)]" and m: "c_string msg = take 127 out"
    "length msg = 128"
    by (auto simp: list_all2_Cons1)
  have g1: "g_log_buffer ?st1 = Some rb1" using w1 by simp
  have "osusat_slog_flush ?st1 flush_fn ctx junk
          = Some (Inr (1, [(?e, msg, ctx)], ?st1\<lparr>g_log_buffer := Some rb'\<rparr>))"
    using flush_eq_loop[OF g1 assms(7) l] new by simp
  moreover have "?st1\<lparr>g_log_buffer := Some rb'\<rparr> = st\<lparr>g_log_buffer := Some rb'\<rparr>"
    using w1 by simp
  moreover have "osusat_ring_buffer_empty rb'"
    using rb_empty_iff_contents[OF wf'] e' by simp
  ultimately show ?thesis
    using m e' by (intro exI[of _ ?e] exI[of _ msg] exI[of _ rb'])
      (simp add: unat_message_len unat_level)
qed


section \<open>Logging: the states of the test suite\<close>

lemma init_store_wf:
  assumes "length storage = capacity" "0 < capacity"
  shows "rb_wf (osusat_ring_buffer_init storage capacity overwrite)"
    and "rb_contents (osusat_ring_buffer_init storage capacity overwrite) = []"
    and "rb_capacity (osusat_ring_buffer_init storage capacity overwrite) = capacity"
    and "rb_overwrite (osusat_ring_buffer_init storage capacity overwrite) = overwrite"
  using assms
  by (simp_all add: rb_wf_def rb_contents_def osusat_ring_buffer_init_def
      osusat_ring_buffer_size_def)

lemma demo_log_fields:
  "g_log_buffer demo_log = Some (osusat_ring_buffer_init (replicate 512 0) 512 True)"
  "g_timestamp_fn demo_log = Some of_nat"
  "g_min_level demo_log = OSUSAT_SLOG_DEBUG"
  by (simp_all add: demo_log_def osusat_slog_init_def)



section \<open>Logging: a torn record\<close>




lemma records_of_calls:
  assumes "list_all2 (\<lambda>r call. fst call = fst r \<and> c_string (fst (snd call)) = snd r \<and>
                        length (fst (snd call)) = 128 \<and> snd (snd call) = ctx) rs new"
  shows "map (\<lambda>call. (fst call, c_string (fst (snd call)))) new = rs"
  using assms by (induction rs new rule: list_all2_induct) auto




section \<open>Logging: the round trip on the test suite's logger\<close>

lemma demo_store:
  "rb_wf (osusat_ring_buffer_init (replicate 512 0) 512 True)"
  "rb_contents (osusat_ring_buffer_init (replicate 512 0) 512 True) = []"
  "rb_capacity (osusat_ring_buffer_init (replicate 512 0) 512 True) = 512"
  "rb_overwrite (osusat_ring_buffer_init (replicate 512 0) 512 True)"
  using init_store_wf[of "replicate 512 0" 512 True] by simp_all

text \<open>
  \<open>test_basic_logging\<close>: with the counter at 1000, \<open>"Test message"\<close> is written at
  level \<open>INFO\<close> from component \<open>0x10\<close>, line 90, and flushed: one call, with timestamp
  1000, level 1, component \<open>0x10\<close>, line 90, length 12 and the string \<open>"Test message"\<close>.
\<close>

theorem write_then_flush_round_trip_witness:
  "\<exists>e msg rb'.
     osusat_slog_flush
         (osusat_slog_write_internal demo_log 1000 (replicate 128 0) OSUSAT_SLOG_INFO 0x10 90
            (Some [0x54, 0x65, 0x73, 0x74, 0x20, 0x6D, 0x65, 0x73, 0x73, 0x61, 0x67, 0x65]))
         (Some (0::nat)) (0::nat) (\<lambda>_. replicate 128 0xAA)
       = Some (Inr (1, [(e, msg, 0)], demo_log\<lparr>g_log_buffer := Some rb'\<rparr>)) \<and>
     entry_timestamp_ms e = 1000 \<and> unat (entry_level e) = 1 \<and>
     entry_component_id e = 0x10 \<and> entry_line e = 90 \<and> unat (entry_message_len e) = 12 \<and>
     c_string msg = [0x54, 0x65, 0x73, 0x74, 0x20, 0x6D, 0x65, 0x73, 0x73, 0x61, 0x67, 0x65] \<and>
     osusat_ring_buffer_empty rb'"
proof -
  let ?m = "[0x54, 0x65, 0x73, 0x74, 0x20, 0x6D, 0x65, 0x73, 0x73, 0x61, 0x67, 0x65] :: u8 list"
  have l: "level_value (g_min_level demo_log) \<le> level_value OSUSAT_SLOG_INFO"
    by (simp add: demo_log_fields)
  have z: "0 \<notin> set (take 127 ?m)" by simp
  have r: "11 + min (length ?m) 127
             \<le> rb_capacity (osusat_ring_buffer_init (replicate 512 0) 512 True) - 1"
    by (simp add: demo_store)
  have f: "Some (0::nat) \<noteq> None" by simp
  have j: "\<forall>n. length ((\<lambda>_. replicate 128 (0xAA :: u8)) n) = 128" by simp
  from write_then_flush_round_trip
         [OF demo_log_fields(1) demo_store(1,2) l z r f j,
          where w = 1000 and wjunk = "replicate 128 0" and component_id = "0x10"
            and line = 90 and ctx = "0::nat"]
  obtain e msg rb' where
    fl: "osusat_slog_flush
           (osusat_slog_write_internal demo_log 1000 (replicate 128 0) OSUSAT_SLOG_INFO 0x10 90
              (Some ?m))
           (Some (0::nat)) (0::nat) (\<lambda>_. replicate 128 0xAA)
         = Some (Inr (1, [(e, msg, 0)], demo_log\<lparr>g_log_buffer := Some rb'\<rparr>))"
    and ts: "entry_timestamp_ms e = (case g_timestamp_fn demo_log of Some f \<Rightarrow> f 1000 | None \<Rightarrow> 0)"
    and lv: "unat (entry_level e) = level_value OSUSAT_SLOG_INFO"
    and co: "entry_component_id e = 0x10" and li: "entry_line e = 90"
    and ml: "unat (entry_message_len e) = min (length ?m) 127"
    and cs: "c_string msg = take 127 ?m" and em: "osusat_ring_buffer_empty rb'"
    by blast
  have ts': "entry_timestamp_ms e = 1000" using ts by (simp add: demo_log_fields)
  have lv': "unat (entry_level e) = 1" using lv by simp
  have ml': "unat (entry_message_len e) = 12" using ml by simp
  have cs': "c_string msg = ?m" using cs by simp
  from fl ts' lv' co li ml' cs' em show ?thesis by blast
qed

section \<open>Logging: round trips with two calls\<close>

lemma demo_write:
  assumes "length out \<le> 127"
  shows "\<exists>rb1. osusat_slog_write_internal demo_log w wjunk OSUSAT_SLOG_INFO component_id line (Some out)
           = demo_log\<lparr>g_log_buffer := Some rb1\<rparr> \<and>
         rb_wf rb1 \<and> rb_capacity rb1 = 512 \<and>
         rb_contents rb1 =
           entry_bytes \<lparr>entry_timestamp_ms = of_nat w, entry_level = 1,
                        entry_component_id = component_id, entry_line = line,
                        entry_message_len = of_nat (length out)\<rparr> @ out @ [0]"
proof -
  have l: "level_value (g_min_level demo_log) \<le> level_value OSUSAT_SLOG_INFO"
    by (simp add: demo_log_fields)
  have r: "length (rb_contents (osusat_ring_buffer_init (replicate 512 0) 512 True)) + 11
             + min (length out) 127
             \<le> rb_capacity (osusat_ring_buffer_init (replicate 512 0) 512 True) - 1"
    using assms by (simp add: demo_store del: length_rb_contents)
  from write_appends_record[OF demo_log_fields(1) demo_store(1) l r,
      where w = w and junk = wjunk and component_id = component_id and line = line]
  show ?thesis using assms
    by (auto simp: demo_store demo_log_fields min_def)
qed

lemma flush_two_records:
  assumes "g_log_buffer st = Some rb" "rb_wf rb"
    and "rb_contents rb = entry_bytes e1 @ m1 @ [0] @ entry_bytes e2 @ m2 @ [0]"
    and "0 \<notin> set m1" "length m1 \<le> 127" "length m1 \<le> unat (entry_message_len e1)"
    and "0 \<notin> set m2" "length m2 \<le> 127" "length m2 \<le> unat (entry_message_len e2)"
  shows "flush_count (osusat_slog_flush st (Some (0::nat)) (0::nat) (\<lambda>_. replicate 128 0xAA))
           = Some 2 \<and>
         flush_records (osusat_slog_flush st (Some (0::nat)) (0::nat) (\<lambda>_. replicate 128 0xAA))
           = Some [(e1, m1), (e2, m2)]"
proof -
  let ?rs = "[(e1, m1), (e2, m2)]"
  have c: "rb_contents rb = concat (map (\<lambda>r. entry_bytes (fst r) @ snd r @ [0]) ?rs)"
    using assms(3) by simp
  have ok: "list_all (\<lambda>r. 0 \<notin> set (snd r) \<and> length (snd r) \<le> 127 \<and>
                       length (snd r) \<le> unat (entry_message_len (fst r))) ?rs"
    using assms(4-9) by simp
  have j: "\<forall>n. length ((\<lambda>_. replicate 128 (0xAA :: u8)) n) = 128" by simp
  from flush_loop_records[OF assms(2) c ok j, of 0 0 "[]"] obtain new rb' where
    l: "slog_flush_loop rb (\<lambda>_. replicate 128 0xAA) (0::nat) 0 [] =
          Some (Inr (0 + length ?rs, [] @ new, rb'))"
    and a: "list_all2 (\<lambda>r call. fst call = fst r \<and> c_string (fst (snd call)) = snd r \<and>
                        length (fst (snd call)) = 128 \<and> snd (snd call) = 0) ?rs new"
    by blast
  have l': "slog_flush_loop rb (\<lambda>_. replicate 128 0xAA) (0::nat) 0 [] = Some (Inr (2, new, rb'))"
    using l by simp
  have f: "Some (0::nat) \<noteq> None" by simp
  have m: "map (\<lambda>call. (fst call, c_string (fst (snd call)))) new = ?rs"
    by (rule records_of_calls[OF a])
  show ?thesis
    using flush_eq_loop[OF assms(1) f l'] m by (simp add: flush_count_def flush_records_def)
qed

lemma nul_message_store:
  "\<exists>rb. g_log_buffer
           (osusat_slog_write_internal demo_log 1000 (replicate 128 0) OSUSAT_SLOG_INFO 0x10 90
              (Some [0x61, 0, 0x62, 0x62, 0x62, 0x62, 0x62, 0x62, 0x62, 0x62, 0x62, 0x62, 0x62,
                     0x62])) = Some rb \<and>
        rb_wf rb \<and>
        rb_contents rb =
          entry_bytes \<lparr>entry_timestamp_ms = 1000, entry_level = 1, entry_component_id = 0x10,
                       entry_line = 90, entry_message_len = 14\<rparr> @
          [0x61, 0, 0x62, 0x62, 0x62, 0x62, 0x62, 0x62, 0x62, 0x62, 0x62, 0x62, 0x62, 0x62, 0]"
proof -
  let ?out = "[0x61, 0, 0x62, 0x62, 0x62, 0x62, 0x62, 0x62, 0x62, 0x62, 0x62, 0x62, 0x62, 0x62]
                :: u8 list"
  have "length ?out \<le> 127" by simp
  from demo_write[OF this, of 1000 "replicate 128 0" "0x10" 90] show ?thesis
    by auto
qed

lemma used_log_store:
  "\<exists>rb. used_log = demo_log\<lparr>g_log_buffer := Some rb\<rparr> \<and> rb_wf rb \<and> rb_capacity rb = 512 \<and>
        rb_contents rb =
          entry_bytes \<lparr>entry_timestamp_ms = 999, entry_level = 1, entry_component_id = 0x10,
                       entry_line = 1, entry_message_len = 7\<rparr> @
          [0x45, 0x6E, 0x74, 0x72, 0x79, 0x20, 0x30, 0]"
proof -
  let ?out = "[0x45, 0x6E, 0x74, 0x72, 0x79, 0x20, 0x30] :: u8 list"
  have "length ?out \<le> 127" by simp
  from demo_write[OF this, of 999 "replicate 128 0" "0x10" 1] show ?thesis
    unfolding used_log_def by auto
qed

lemma used_log_second_write:
  "\<exists>rb. g_log_buffer
           (osusat_slog_write_internal used_log 1000 (replicate 128 0) OSUSAT_SLOG_INFO 0x10 2
              (Some [0x45, 0x6E, 0x74, 0x72, 0x79, 0x20, 0x31])) = Some rb \<and>
        rb_wf rb \<and>
        rb_contents rb =
          entry_bytes \<lparr>entry_timestamp_ms = 999, entry_level = 1, entry_component_id = 0x10,
                       entry_line = 1, entry_message_len = 7\<rparr> @
          [0x45, 0x6E, 0x74, 0x72, 0x79, 0x20, 0x30, 0] @
          entry_bytes \<lparr>entry_timestamp_ms = 1000, entry_level = 1, entry_component_id = 0x10,
                       entry_line = 2, entry_message_len = 7\<rparr> @
          [0x45, 0x6E, 0x74, 0x72, 0x79, 0x20, 0x31, 0]"
proof -
  let ?out = "[0x45, 0x6E, 0x74, 0x72, 0x79, 0x20, 0x31] :: u8 list"
  from used_log_store obtain rb where
    u: "used_log = demo_log\<lparr>g_log_buffer := Some rb\<rparr>" and wf: "rb_wf rb"
    and cap: "rb_capacity rb = 512"
    and c: "rb_contents rb =
          entry_bytes \<lparr>entry_timestamp_ms = 999, entry_level = 1, entry_component_id = 0x10,
                       entry_line = 1, entry_message_len = 7\<rparr> @
          [0x45, 0x6E, 0x74, 0x72, 0x79, 0x20, 0x30, 0]"
    by blast
  have g: "g_log_buffer used_log = Some rb" and t: "g_timestamp_fn used_log = Some of_nat"
    and l: "level_value (g_min_level used_log) \<le> level_value OSUSAT_SLOG_INFO"
    unfolding u by (simp_all add: demo_log_fields)
  have r: "length (rb_contents rb) + 11 + min (length ?out) 127 \<le> rb_capacity rb - 1"
    unfolding c cap by simp
  from write_appends_record[OF g wf l r, where w = 1000 and junk = "replicate 128 0"
      and component_id = "0x10" and line = 2]
  show ?thesis unfolding t c by auto
qed


lemma entry_bytes_b:
  "entry_bytes \<lparr>entry_timestamp_ms = 0x62626262, entry_level = 0x62,
                entry_component_id = 0x62, entry_line = 0x6262, entry_message_len = 0x6262\<rparr>
     = [0x62, 0x62, 0x62, 0x62, 0x62, 0x62, 0x62, 0x62, 0x62, 0x62]"
  by (simp add: entry_bytes_def le16_def le32_def)

text \<open>
  Two runs on which \<open>write\<close> followed by one \<open>flush\<close> makes two calls. In both
  the store of 512 bytes is bound, the level passes the filter and nothing is evicted.

  On the empty store of \<open>demo_log\<close> the formatted message is the 14 bytes \<open>'a'\<close>, a zero
  byte and twelve \<open>'b'\<close> (as \<open>"a%cbbbbbbbbbbbb"\<close> with the argument 0 gives): 25 bytes
  are stored. The first call has the entry of the write with the string \<open>"a"\<close>, which is
  not the message; the second is for the 13 bytes that follow the zero byte, ten \<open>'b'\<close>
  read as a header and the string \<open>"bb"\<close>.

  On \<open>used_log\<close>, which holds an earlier record of 18 bytes, the message is
  \<open>"Entry 1"\<close>: the first call is for the earlier record, the second for the record
  written.
\<close>

theorem round_trip_two_calls_counterexample:
  "level_value (g_min_level demo_log) \<le> level_value OSUSAT_SLOG_INFO \<and>
   map_option (\<lambda>rb. (rb_capacity rb, osusat_ring_buffer_size rb)) (g_log_buffer demo_log)
     = Some (512, 0) \<and>
   map_option osusat_ring_buffer_size
       (g_log_buffer
          (osusat_slog_write_internal demo_log 1000 (replicate 128 0) OSUSAT_SLOG_INFO 0x10 90
             (Some [0x61, 0, 0x62, 0x62, 0x62, 0x62, 0x62, 0x62, 0x62, 0x62, 0x62, 0x62, 0x62,
                    0x62])))
     = Some 25 \<and>
   flush_count
       (osusat_slog_flush
          (osusat_slog_write_internal demo_log 1000 (replicate 128 0) OSUSAT_SLOG_INFO 0x10 90
             (Some [0x61, 0, 0x62, 0x62, 0x62, 0x62, 0x62, 0x62, 0x62, 0x62, 0x62, 0x62, 0x62,
                    0x62]))
          (Some (0::nat)) (0::nat) (\<lambda>_. replicate 128 0xAA))
     = Some 2 \<and>
   flush_records
       (osusat_slog_flush
          (osusat_slog_write_internal demo_log 1000 (replicate 128 0) OSUSAT_SLOG_INFO 0x10 90
             (Some [0x61, 0, 0x62, 0x62, 0x62, 0x62, 0x62, 0x62, 0x62, 0x62, 0x62, 0x62, 0x62,
                    0x62]))
          (Some (0::nat)) (0::nat) (\<lambda>_. replicate 128 0xAA))
     = Some [(\<lparr>entry_timestamp_ms = 1000, entry_level = 1, entry_component_id = 0x10,
                entry_line = 90, entry_message_len = 14\<rparr>, [0x61]),
             (\<lparr>entry_timestamp_ms = 0x62626262, entry_level = 0x62,
                entry_component_id = 0x62, entry_line = 0x6262, entry_message_len = 0x6262\<rparr>,
              [0x62, 0x62])] \<and>
   level_value (g_min_level used_log) \<le> level_value OSUSAT_SLOG_INFO \<and>
   map_option (\<lambda>rb. (rb_capacity rb, osusat_ring_buffer_size rb)) (g_log_buffer used_log)
     = Some (512, 18) \<and>
   map_option osusat_ring_buffer_size
       (g_log_buffer
          (osusat_slog_write_internal used_log 1000 (replicate 128 0) OSUSAT_SLOG_INFO 0x10 2
             (Some [0x45, 0x6E, 0x74, 0x72, 0x79, 0x20, 0x31])))
     = Some 36 \<and>
   flush_count
       (osusat_slog_flush
          (osusat_slog_write_internal used_log 1000 (replicate 128 0) OSUSAT_SLOG_INFO 0x10 2
             (Some [0x45, 0x6E, 0x74, 0x72, 0x79, 0x20, 0x31]))
          (Some (0::nat)) (0::nat) (\<lambda>_. replicate 128 0xAA))
     = Some 2 \<and>
   flush_records
       (osusat_slog_flush
          (osusat_slog_write_internal used_log 1000 (replicate 128 0) OSUSAT_SLOG_INFO 0x10 2
             (Some [0x45, 0x6E, 0x74, 0x72, 0x79, 0x20, 0x31]))
          (Some (0::nat)) (0::nat) (\<lambda>_. replicate 128 0xAA))
     = Some [(\<lparr>entry_timestamp_ms = 999, entry_level = 1, entry_component_id = 0x10,
                entry_line = 1, entry_message_len = 7\<rparr>,
              [0x45, 0x6E, 0x74, 0x72, 0x79, 0x20, 0x30]),
             (\<lparr>entry_timestamp_ms = 1000, entry_level = 1, entry_component_id = 0x10,
                entry_line = 2, entry_message_len = 7\<rparr>,
              [0x45, 0x6E, 0x74, 0x72, 0x79, 0x20, 0x31])]"
proof -
  let ?e = "\<lparr>entry_timestamp_ms = 1000, entry_level = 1, entry_component_id = 0x10,
             entry_line = 90, entry_message_len = 14\<rparr>"
  let ?g = "\<lparr>entry_timestamp_ms = 0x62626262, entry_level = 0x62,
             entry_component_id = 0x62, entry_line = 0x6262, entry_message_len = 0x6262\<rparr>"
  let ?e1 = "\<lparr>entry_timestamp_ms = 999, entry_level = 1, entry_component_id = 0x10,
              entry_line = 1, entry_message_len = 7\<rparr>"
  let ?e2 = "\<lparr>entry_timestamp_ms = 1000, entry_level = 1, entry_component_id = 0x10,
              entry_line = 2, entry_message_len = 7\<rparr>"
  let ?stn = "osusat_slog_write_internal demo_log 1000 (replicate 128 0) OSUSAT_SLOG_INFO 0x10 90
                (Some [0x61, 0, 0x62, 0x62, 0x62, 0x62, 0x62, 0x62, 0x62, 0x62, 0x62, 0x62, 0x62,
                       0x62])"
  let ?stu = "osusat_slog_write_internal used_log 1000 (replicate 128 0) OSUSAT_SLOG_INFO 0x10 2
                (Some [0x45, 0x6E, 0x74, 0x72, 0x79, 0x20, 0x31])"
  have a1: "level_value (g_min_level demo_log) \<le> level_value OSUSAT_SLOG_INFO"
    by (simp add: demo_log_fields)
  have a2: "map_option (\<lambda>rb. (rb_capacity rb, osusat_ring_buffer_size rb))
              (g_log_buffer demo_log) = Some (512, 0)"
    using length_rb_contents[of "osusat_ring_buffer_init (replicate 512 0) 512 True"]
    by (simp add: demo_log_fields demo_store del: length_rb_contents)
  from nul_message_store obtain rbn where
    gn: "g_log_buffer ?stn = Some rbn" and wfn: "rb_wf rbn"
    and cn: "rb_contents rbn = entry_bytes ?e @
          [0x61, 0, 0x62, 0x62, 0x62, 0x62, 0x62, 0x62, 0x62, 0x62, 0x62, 0x62, 0x62, 0x62, 0]"
    by (elim exE conjE)
  have szn: "osusat_ring_buffer_size rbn = 25"
    using length_rb_contents[of rbn] unfolding cn by simp
  have a3: "map_option osusat_ring_buffer_size (g_log_buffer ?stn) = Some 25"
    using gn szn by simp
  have cn': "rb_contents rbn = entry_bytes ?e @ [0x61] @ [0] @ entry_bytes ?g @ [0x62, 0x62] @ [0]"
    unfolding cn entry_bytes_b by simp
  have fn: "flush_count (osusat_slog_flush ?stn (Some (0::nat)) (0::nat) (\<lambda>_. replicate 128 0xAA))
              = Some 2 \<and>
            flush_records (osusat_slog_flush ?stn (Some (0::nat)) (0::nat) (\<lambda>_. replicate 128 0xAA))
              = Some [(?e, [0x61]), (?g, [0x62, 0x62])]"
    by (rule flush_two_records[OF gn wfn cn']) simp_all
  from used_log_store obtain rbu where
    u: "used_log = demo_log\<lparr>g_log_buffer := Some rbu\<rparr>" and capu: "rb_capacity rbu = 512"
    and cu: "rb_contents rbu = entry_bytes ?e1 @ [0x45, 0x6E, 0x74, 0x72, 0x79, 0x20, 0x30, 0]"
    by (elim exE conjE)
  have szu: "osusat_ring_buffer_size rbu = 18"
    using length_rb_contents[of rbu] unfolding cu by simp
  have b1: "level_value (g_min_level used_log) \<le> level_value OSUSAT_SLOG_INFO"
    unfolding u by (simp add: demo_log_fields)
  have b2: "map_option (\<lambda>rb. (rb_capacity rb, osusat_ring_buffer_size rb))
              (g_log_buffer used_log) = Some (512, 18)"
    unfolding u using capu szu by simp
  from used_log_second_write obtain rb2 where
    g2: "g_log_buffer ?stu = Some rb2" and wf2: "rb_wf rb2"
    and c2: "rb_contents rb2 =
          entry_bytes ?e1 @ [0x45, 0x6E, 0x74, 0x72, 0x79, 0x20, 0x30, 0] @
          entry_bytes ?e2 @ [0x45, 0x6E, 0x74, 0x72, 0x79, 0x20, 0x31, 0]"
    by (elim exE conjE)
  have sz2: "osusat_ring_buffer_size rb2 = 36"
    using length_rb_contents[of rb2] unfolding c2 by simp
  have b3: "map_option osusat_ring_buffer_size (g_log_buffer ?stu) = Some 36"
    using g2 sz2 by simp
  have c2': "rb_contents rb2 =
          entry_bytes ?e1 @ [0x45, 0x6E, 0x74, 0x72, 0x79, 0x20, 0x30] @ [0] @
          entry_bytes ?e2 @ [0x45, 0x6E, 0x74, 0x72, 0x79, 0x20, 0x31] @ [0]"
    unfolding c2 by simp
  have fu: "flush_count (osusat_slog_flush ?stu (Some (0::nat)) (0::nat) (\<lambda>_. replicate 128 0xAA))
              = Some 2 \<and>
            flush_records (osusat_slog_flush ?stu (Some (0::nat)) (0::nat) (\<lambda>_. replicate 128 0xAA))
              = Some [(?e1, [0x45, 0x6E, 0x74, 0x72, 0x79, 0x20, 0x30]),
                      (?e2, [0x45, 0x6E, 0x74, 0x72, 0x79, 0x20, 0x31])]"
    by (rule flush_two_records[OF g2 wf2 c2']) simp_all
  show ?thesis
    by (intro conjI a1 a2 a3 conjunct1[OF fn] conjunct2[OF fn] b1 b2 b3
        conjunct1[OF fu] conjunct2[OF fu])
qed

section \<open>Logging: the filter, the truncation and the pending count on the test suite's logger\<close>

text \<open>
  With the minimum level raised to \<open>WARN\<close> an \<open>INFO\<close> write returns the state unchanged,
  and so does any write while no store is bound.
\<close>

theorem write_below_min_level_is_noop_witness:
  "osusat_slog_write_internal (osusat_slog_change_min_log_level demo_log OSUSAT_SLOG_WARN)
       1000 (replicate 128 0) OSUSAT_SLOG_INFO 0x10 90 (Some [0x54, 0x65, 0x73, 0x74])
     = osusat_slog_change_min_log_level demo_log OSUSAT_SLOG_WARN \<and>
   osusat_slog_write_internal (osusat_slog_init None (Some of_nat) OSUSAT_SLOG_DEBUG)
       (1000::nat) (replicate 128 0) OSUSAT_SLOG_CRITICAL 0x10 90 (Some [0x54, 0x65, 0x73, 0x74])
     = osusat_slog_init None (Some of_nat) OSUSAT_SLOG_DEBUG"
proof -
  have a: "level_value OSUSAT_SLOG_INFO
             < level_value (g_min_level (osusat_slog_change_min_log_level demo_log OSUSAT_SLOG_WARN))
           \<or> g_log_buffer (osusat_slog_change_min_log_level demo_log OSUSAT_SLOG_WARN) = None"
    by (simp add: osusat_slog_change_min_log_level_def)
  have b: "level_value OSUSAT_SLOG_CRITICAL
             < level_value (g_min_level (osusat_slog_init None (Some of_nat) OSUSAT_SLOG_DEBUG
                                           :: nat slog_state))
           \<or> g_log_buffer (osusat_slog_init None (Some of_nat) OSUSAT_SLOG_DEBUG
                              :: nat slog_state) = None"
    by (simp add: osusat_slog_init_def)
  from write_below_min_level_is_noop [OF a] write_below_min_level_is_noop [OF b]
  show ?thesis by blast
qed

text \<open>
  \<open>test_message_truncation\<close>: a message of 199 characters is stored as 127 characters
  and a zero byte, with \<open>message_len = 127\<close>.
\<close>

theorem write_message_len_bounded_witness:
  "\<exists>e. osusat_slog_write_internal demo_log 1000 (replicate 128 0) OSUSAT_SLOG_INFO 0x10 90
          (Some (replicate 199 0x41))
        = demo_log\<lparr>g_log_buffer :=
            Some (snd (slog_push_bytes (osusat_ring_buffer_init (replicate 512 0) 512 True)
                         (entry_bytes e @ replicate 127 0x41 @ [0])))\<rparr> \<and>
      unat (entry_message_len e) = 127 \<and>
      rb_contents (snd (slog_push_bytes (osusat_ring_buffer_init (replicate 512 0) 512 True)
                         (entry_bytes e @ replicate 127 0x41 @ [0])))
        = entry_bytes e @ replicate 127 0x41 @ [0]"
proof -
  have l: "level_value (g_min_level demo_log) \<le> level_value OSUSAT_SLOG_INFO"
    by (simp add: demo_log_fields)
  from write_message_len_bounded [OF demo_log_fields(1) l,
      where w = 1000 and junk = "replicate 128 0" and component_id = "0x10" and line = 90
        and out = "replicate 199 0x41"]
  show ?thesis
    by (auto simp: demo_store keep_last_def)
qed

text \<open>
  After \<open>"Test message"\<close> has been written the store holds one complete record of 23
  bytes, the one that \<open>flush\<close> delivers above, and \<open>pending_count\<close> is 0; it is 0 without
  a store too.
\<close>

theorem pending_count_is_size_div_40_witness:
  "(\<exists>rb e. g_log_buffer
             (osusat_slog_write_internal demo_log 1000 (replicate 128 0) OSUSAT_SLOG_INFO 0x10 90
                (Some [0x54, 0x65, 0x73, 0x74, 0x20, 0x6D, 0x65, 0x73, 0x73, 0x61, 0x67, 0x65]))
           = Some rb \<and>
         rb_contents rb = entry_bytes e @
           [0x54, 0x65, 0x73, 0x74, 0x20, 0x6D, 0x65, 0x73, 0x73, 0x61, 0x67, 0x65] @ [0] \<and>
         osusat_ring_buffer_size rb = 23) \<and>
   osusat_slog_pending_count
     (osusat_slog_write_internal demo_log 1000 (replicate 128 0) OSUSAT_SLOG_INFO 0x10 90
        (Some [0x54, 0x65, 0x73, 0x74, 0x20, 0x6D, 0x65, 0x73, 0x73, 0x61, 0x67, 0x65])) = 0 \<and>
   osusat_slog_pending_count (osusat_slog_init None None OSUSAT_SLOG_DEBUG :: nat slog_state) = 0"
proof -
  let ?m = "[0x54, 0x65, 0x73, 0x74, 0x20, 0x6D, 0x65, 0x73, 0x73, 0x61, 0x67, 0x65] :: u8 list"
  let ?st = "osusat_slog_write_internal demo_log 1000 (replicate 128 0) OSUSAT_SLOG_INFO 0x10 90
               (Some ?m)"
  have l: "level_value (g_min_level demo_log) \<le> level_value OSUSAT_SLOG_INFO"
    by (simp add: demo_log_fields)
  have r: "length (rb_contents (osusat_ring_buffer_init (replicate 512 0) 512 True)) + 11
             + min (length ?m) 127
             \<le> rb_capacity (osusat_ring_buffer_init (replicate 512 0) 512 True) - 1"
    by (simp add: demo_store del: length_rb_contents)
  from write_appends_record[OF demo_log_fields(1) demo_store(1) l r,
      where w = 1000 and junk = "replicate 128 0" and component_id = "0x10" and line = 90]
  obtain rb e where g: "g_log_buffer ?st = Some rb"
    and c: "rb_contents rb = entry_bytes e @ ?m @ [0]"
    by (auto simp: demo_store)
  have sz: "osusat_ring_buffer_size rb = 23"
    using length_rb_contents[of rb] unfolding c by simp
  from pending_count_is_size_div_40 [of ?st] g sz
  have p: "osusat_slog_pending_count ?st = 0" by simp
  have n: "g_log_buffer (osusat_slog_init None None OSUSAT_SLOG_DEBUG :: nat slog_state) = None"
    by (simp add: osusat_slog_init_def)
  from pending_count_is_size_div_40 [of "osusat_slog_init None None OSUSAT_SLOG_DEBUG :: nat slog_state"] n
  have q: "osusat_slog_pending_count
             (osusat_slog_init None None OSUSAT_SLOG_DEBUG :: nat slog_state) = 0"
    by blast
  from g c sz p q show ?thesis by blast
qed

end
